theory Spec2Isabelle
  imports Main "HOL-Library.Word" "HOL-Library.Sublist"
begin

section \<open>JavaScript values and strings\<close>

text \<open>
  A JavaScript string is a sequence of UTF-16 code units. The tool's regular expressions
  carry no \<open>u\<close> flag, so \<open>[\s\S]\<close> matches one code unit at a time and the model works on
  code units throughout.
\<close>

type_synonym jschar = "16 word"
type_synonym jsstring = "jschar list"

definition lit :: "string \<Rightarrow> jsstring" where
  "lit s = map of_char s"

text \<open>
  The values that may be stored under a parameter name (\<open>Record<string, any>\<close>). The guard
  of \<open>doWork\<close> only asks for truthiness and for \<open>typeof\<close>; numbers, arrays and functions
  take the same branch as \<open>JObject\<close> there and are not listed separately.
\<close>

datatype jsvalue = JUndefined | JNull | JBoolean bool | JString jsstring | JObject

fun truthy :: "jsvalue \<Rightarrow> bool" where
  "truthy JUndefined = False"
| "truthy JNull = False"
| "truthy (JBoolean b) = b"
| "truthy (JString s) = (s \<noteq> [])"
| "truthy JObject = True"

fun typeof :: "jsvalue \<Rightarrow> string" where
  "typeof JUndefined = ''undefined''"
| "typeof JNull = ''object''"
| "typeof (JBoolean b) = ''boolean''"
| "typeof (JString s) = ''string''"
| "typeof JObject = ''object''"

text \<open>
  \<open>String.prototype.trim\<close> removes the code units of the ECMAScript productions
  WhiteSpace and LineTerminator from both ends.
\<close>

definition is_js_space :: "jschar \<Rightarrow> bool" where
  "is_js_space c \<longleftrightarrow> c \<in> set [0x0009, 0x000A, 0x000B, 0x000C, 0x000D, 0x0020, 0x00A0,
     0x1680, 0x2000, 0x2001, 0x2002, 0x2003, 0x2004, 0x2005, 0x2006, 0x2007, 0x2008,
     0x2009, 0x200A, 0x2028, 0x2029, 0x202F, 0x205F, 0x3000, 0xFEFF]"

definition trim :: "jsstring \<Rightarrow> jsstring" where
  "trim s = rev (dropWhile is_js_space (rev (dropWhile is_js_space s)))"

text \<open>
  Template literals turn a number into its decimal numeral. \<open>Date.now()\<close> is an integral
  number of milliseconds of magnitude below \<open>10^21\<close>, and so are the loop indices, so no
  exponent notation appears.
\<close>

definition digit_char :: "nat \<Rightarrow> jschar" where
  "digit_char d = of_nat (48 + d)"

function show_nat :: "nat \<Rightarrow> jsstring" where
  "show_nat n = (if n < 10 then [digit_char n] else show_nat (n div 10) @ [digit_char (n mod 10)])"
  by pat_completeness auto
termination
  by (relation "measure (\<lambda>n. n)") auto

declare show_nat.simps [simp del]

definition show_int :: "int \<Rightarrow> jsstring" where
  "show_int i = (if i < 0 then lit ''-'' @ show_nat (nat (- i)) else show_nat (nat i))"

section \<open>The regular expressions of the tool\<close>

text \<open>
  Every regular expression of \<open>doWork\<close> has the shape \<open>/<x>([\s\S]*?)<\/x>/\<close>: a literal
  opening tag, a lazy capture of arbitrary code units, a literal closing tag. Such an
  expression is given by its two literals.
\<close>

type_synonym tag_regex = "jsstring \<times> jsstring"

definition taskRegex :: tag_regex where
  "taskRegex = (lit ''<task>'', lit ''</task>'')"

definition descRegex :: tag_regex where
  "descRegex = (lit ''<description>'', lit ''</description>'')"

definition reasoningRegex :: tag_regex where
  "reasoningRegex = (lit ''<reasoning>'', lit ''</reasoning>'')"

definition subProblemRegex :: tag_regex where
  "subProblemRegex = (lit ''<sub_problem>'', lit ''</sub_problem>'')"

fun starts_with :: "'a list \<Rightarrow> 'a list \<Rightarrow> bool" where
  "starts_with [] s = True"
| "starts_with (p # ps) [] = False"
| "starts_with (p # ps) (c # cs) = (p = c \<and> starts_with ps cs)"

text \<open>
  The lazy group followed by the closing literal: the capture grows one code unit at a
  time until the literal matches. The result is the capture and the input left after the
  literal.
\<close>

fun lazy_until :: "'a list \<Rightarrow> 'a list \<Rightarrow> ('a list \<times> 'a list) option" where
  "lazy_until cls [] = (if starts_with cls [] then Some ([], []) else None)"
| "lazy_until cls (c # cs) =
     (if starts_with cls (c # cs) then Some ([], drop (length cls) (c # cs))
      else map_option (\<lambda>(cap, rest). (c # cap, rest)) (lazy_until cls cs))"

text \<open>One attempt of the expression at the start of the input.\<close>

fun match_at :: "'a list \<times> 'a list \<Rightarrow> 'a list \<Rightarrow> ('a list \<times> 'a list) option" where
  "match_at (opn, cls) s =
     (if starts_with opn s then lazy_until cls (drop (length opn) s) else None)"

text \<open>
  \<open>RegExp.prototype.exec\<close>: the attempts run over the start positions from left to right
  and the first that succeeds is the match. The result is capture group 1 and the input
  from the end of the match on, which is where \<open>lastIndex\<close> of a global expression points
  for the next call.
\<close>

fun regex_exec :: "'a list \<times> 'a list \<Rightarrow> 'a list \<Rightarrow> ('a list \<times> 'a list) option" where
  "regex_exec re [] = match_at re []"
| "regex_exec re (c # cs) =
     (case match_at re (c # cs) of Some m \<Rightarrow> Some m | None \<Rightarrow> regex_exec re cs)"

text \<open>\<open>String.prototype.match\<close> with an expression that is not global, read at index 1.\<close>

definition regex_match :: "'a list \<times> 'a list \<Rightarrow> 'a list \<Rightarrow> 'a list option" where
  "regex_match re s = map_option fst (regex_exec re s)"


lemma starts_with_length: "starts_with p t \<Longrightarrow> length p \<le> length t"
  by (induction p t rule: starts_with.induct) auto

lemma lazy_until_length:
  "lazy_until cls s = Some (cap, rest) \<Longrightarrow> length cap + length cls + length rest = length s"
proof (induction s arbitrary: cap)
  case Nil
  then show ?case by (cases cls) (auto split: if_splits)
next
  case (Cons c cs)
  show ?case
  proof (cases "starts_with cls (c # cs)")
    case True
    with Cons.prems starts_with_length [OF True] show ?thesis by auto
  next
    case False
    with Cons.prems obtain cap' where "lazy_until cls cs = Some (cap', rest)" "cap = c # cap'"
      by auto
    with Cons.IH [of cap'] show ?thesis by simp
  qed
qed

lemma match_at_length:
  assumes "match_at (opn, cls) s = Some (cap, rest)"
  shows "length opn + length cls + length rest \<le> length s"
proof -
  from assms have st: "starts_with opn s"
    and lu: "lazy_until cls (drop (length opn) s) = Some (cap, rest)"
    by (auto split: if_splits)
  from lazy_until_length [OF lu] starts_with_length [OF st] show ?thesis by simp
qed

lemma regex_exec_length:
  "regex_exec (opn, cls) s = Some (cap, rest) \<Longrightarrow> length opn + length cls + length rest \<le> length s"
proof (induction s)
  case Nil
  then show ?case using match_at_length [of opn cls "[]" cap rest] by simp
next
  case (Cons c cs)
  show ?case
  proof (cases "match_at (opn, cls) (c # cs)")
    case None
    with Cons show ?thesis by simp
  next
    case (Some m)
    with Cons.prems have "match_at (opn, cls) (c # cs) = Some (cap, rest)" by simp
    from match_at_length [OF this] show ?thesis .
  qed
qed

section \<open>The REFLECT tool\<close>

text \<open>
  The objects pushed to \<open>subProblems\<close> (lines 75 to 79) and the \<open>TaskEntry\<close> objects pushed
  to \<open>newTasks\<close> (lines 87 to 92), with the fields of the object literals; the field \<open>id\<close>
  is \<open>sub_id\<close> and \<open>task_id\<close> here. The last record is the argument of
  \<open>createSuccessResult\<close>.
\<close>

record sub_problem =
  sub_id :: jsstring
  sub_description :: jsstring
  sub_reasoning :: jsstring

record task_entry =
  task_id :: jsstring
  description :: jsstring
  reasoning :: jsstring
  sub_problems :: "sub_problem list"

record reflect_output =
  new_tasks :: "task_entry list"
  tasks_count :: nat

text \<open>
  Modelled from the spec: \<open>createFailureResult\<close> and \<open>createSuccessResult\<close> of \<open>BaseTool\<close>
  (base-tool is not among the sources). The spec calls them the framework's generic
  failure-result envelope around a human-readable message and its generic success-result
  envelope around the structured payload.
\<close>

datatype execution_result =
  createFailureResult jsstring
| createSuccessResult reflect_output

text \<open>
  \<open>Date.now()\<close> is read once for every identifier. The clock is the sequence of the
  values it returns within one call of \<open>doWork\<close>; the loops count the reads.
\<close>

type_synonym clock = "nat \<Rightarrow> int"

definition fixed_clock :: "int \<Rightarrow> clock" where
  "fixed_clock t k = t"

definition placeholder :: jsstring where
  "placeholder = lit ''Generated by reflection''"

definition sub_problem_id :: "int \<Rightarrow> nat \<Rightarrow> nat \<Rightarrow> jsstring" where
  "sub_problem_id t taskIndex subIndex =
     lit ''reflect_sub_'' @ show_int t @ lit ''_'' @ show_nat taskIndex @ lit ''_'' @ show_nat subIndex"

definition task_entry_id :: "int \<Rightarrow> nat \<Rightarrow> jsstring" where
  "task_entry_id t taskIndex = lit ''reflect_task_'' @ show_int t @ lit ''_'' @ show_nat taskIndex"

definition msg_param :: jsstring where
  "msg_param = lit ''REFLECT tool requires '' @ [0x27] @ lit ''new_tasks'' @ [0x27]
     @ lit '' parameter as a string with XML format.''"

definition msg_no_description :: "nat \<Rightarrow> jsstring" where
  "msg_no_description taskIndex =
     lit ''REFLECT tool: Task '' @ show_nat (taskIndex + 1) @ lit '' must have a <description> element.''"

definition msg_no_sub_problem :: "nat \<Rightarrow> jsstring" where
  "msg_no_sub_problem taskIndex =
     lit ''REFLECT tool: Task '' @ show_nat (taskIndex + 1)
       @ lit '' must have at least one <sub_problem> element.''"

definition msg_no_tasks :: jsstring where
  "msg_no_tasks = lit ''REFLECT tool: No valid <task> elements found in new_tasks parameter.''"

text \<open>The inner \<open>while\<close> loop (lines 73 to 81), run on the input left after the last match.\<close>

function sub_loop :: "clock \<Rightarrow> jsstring \<Rightarrow> nat \<Rightarrow> nat \<Rightarrow> sub_problem list \<Rightarrow> nat
    \<Rightarrow> sub_problem list \<times> nat" where
  "sub_loop now s taskIndex subIndex subProblems clk =
     (case regex_exec subProblemRegex s of
        None \<Rightarrow> (subProblems, clk)
      | Some (cap, rest) \<Rightarrow>
          sub_loop now rest taskIndex (subIndex + 1)
            (subProblems @ [\<lparr>sub_id = sub_problem_id (now clk) taskIndex subIndex,
                             sub_description = trim cap,
                             sub_reasoning = placeholder\<rparr>])
            (clk + 1))"
  by pat_completeness auto
termination
proof (relation "measure (\<lambda>(now, s, taskIndex, subIndex, subProblems, clk). length s)")
  show "wf (measure (\<lambda>(now, s, taskIndex, subIndex, subProblems, clk). length s))"
    by simp
next
  fix now :: clock and s :: jsstring and taskIndex subIndex clk :: nat
    and subProblems :: "sub_problem list" and x2 x y
  assume "regex_exec subProblemRegex s = Some x2" "(x, y) = x2"
  then have "regex_exec (lit ''<sub_problem>'', lit ''</sub_problem>'') s = Some (x, y)"
    by (simp add: subProblemRegex_def)
  from regex_exec_length [OF this]
  show "((now, y, taskIndex, subIndex + 1,
          subProblems @ [\<lparr>sub_id = sub_problem_id (now clk) taskIndex subIndex,
                           sub_description = trim x, sub_reasoning = placeholder\<rparr>], clk + 1),
         (now, s, taskIndex, subIndex, subProblems, clk))
        \<in> measure (\<lambda>(now, s, taskIndex, subIndex, subProblems, clk). length s)"
    by (simp add: lit_def)
qed

declare sub_loop.simps [simp del]

text \<open>
  The body of the outer \<open>while\<close> loop for one captured \<open>taskContent\<close> (lines 54 to 92):
  either the message of an early \<open>return\<close>, or the entry to push and the clock reads so far.
\<close>

definition task_body :: "clock \<Rightarrow> jsstring \<Rightarrow> nat \<Rightarrow> nat \<Rightarrow> jsstring + task_entry \<times> nat" where
  "task_body now taskContent taskIndex clk =
     (case regex_match descRegex taskContent of
        None \<Rightarrow> Inl (msg_no_description taskIndex)
      | Some descCap \<Rightarrow>
          (let desc = trim descCap;
               reas = (case regex_match reasoningRegex taskContent of
                         Some reasCap \<Rightarrow> trim reasCap
                       | None \<Rightarrow> placeholder);
               (subProblems, clk') = sub_loop now taskContent taskIndex 0 [] clk
           in if length subProblems = 0 then Inl (msg_no_sub_problem taskIndex)
              else Inr (\<lparr>task_id = task_entry_id (now clk') taskIndex,
                          description = desc,
                          reasoning = reas,
                          sub_problems = subProblems\<rparr>, clk' + 1)))"

text \<open>The outer \<open>while\<close> loop (lines 53 to 95).\<close>

function task_loop :: "clock \<Rightarrow> jsstring \<Rightarrow> nat \<Rightarrow> task_entry list \<Rightarrow> nat
    \<Rightarrow> jsstring + task_entry list" where
  "task_loop now s taskIndex newTasks clk =
     (case regex_exec taskRegex s of
        None \<Rightarrow> Inr newTasks
      | Some (taskContent, rest) \<Rightarrow>
          (case task_body now taskContent taskIndex clk of
             Inl msg \<Rightarrow> Inl msg
           | Inr (entry, clk') \<Rightarrow> task_loop now rest (taskIndex + 1) (newTasks @ [entry]) clk'))"
  by pat_completeness auto
termination
proof (relation "measure (\<lambda>(now, s, taskIndex, newTasks, clk). length s)")
  show "wf (measure (\<lambda>(now, s, taskIndex, newTasks, clk). length s))"
    by simp
next
  fix now :: clock and s :: jsstring and taskIndex clk :: nat
    and newTasks :: "task_entry list" and x2 x y x2a xa ya
  assume "regex_exec taskRegex s = Some x2" "(x, y) = x2"
  then have "regex_exec (lit ''<task>'', lit ''</task>'') s = Some (x, y)"
    by (simp add: taskRegex_def)
  from regex_exec_length [OF this]
  show "((now, y, taskIndex + 1, newTasks @ [xa], ya), (now, s, taskIndex, newTasks, clk))
        \<in> measure (\<lambda>(now, s, taskIndex, newTasks, clk). length s)"
    by (simp add: lit_def)
qed

declare task_loop.simps [simp del]

text \<open>
  \<open>doWork\<close>. Nothing in the \<open>try\<close> block throws (regular expression matching and \<open>trim\<close>
  on strings, array pushes), so the \<open>catch\<close> clause has no branch here. The \<open>context\<close>
  argument is not used by the method.
\<close>

definition doWork :: "clock \<Rightarrow> (string \<rightharpoonup> jsvalue) \<Rightarrow> execution_result" where
  "doWork now parameters =
     (let newTasksParam = (case parameters ''new_tasks'' of None \<Rightarrow> JUndefined | Some v \<Rightarrow> v)
      in if \<not> truthy newTasksParam \<or> typeof newTasksParam \<noteq> ''string''
         then createFailureResult msg_param
         else (case newTasksParam of
                 JString payload \<Rightarrow>
                   (case task_loop now payload 0 [] 0 of
                      Inl msg \<Rightarrow> createFailureResult msg
                    | Inr newTasks \<Rightarrow>
                        if length newTasks = 0 then createFailureResult msg_no_tasks
                        else createSuccessResult
                               \<lparr>new_tasks = newTasks, tasks_count = length newTasks\<rparr>)
               | _ \<Rightarrow> createFailureResult msg_param))"

section \<open>Notions of the specification\<close>

text \<open>
  A text contains a tag when an opening literal is followed, anywhere later, by the closing
  literal.
\<close>

definition has_tag :: "'a list \<times> 'a list \<Rightarrow> 'a list \<Rightarrow> bool" where
  "has_tag re s \<longleftrightarrow> (\<exists>pre cap rest. s = pre @ fst re @ cap @ snd re @ rest)"

text \<open>
  The blocks of a payload: the captures of the global task expression when it is run to
  the end of the payload (step 1 of the specified algorithm), and likewise the captures of
  the sub-problem expression in a block.
\<close>

function task_blocks :: "jsstring \<Rightarrow> jsstring list" where
  "task_blocks s =
     (case regex_exec taskRegex s of
        None \<Rightarrow> []
      | Some (cap, rest) \<Rightarrow> cap # task_blocks rest)"
  by pat_completeness auto
termination
proof (relation "measure length")
  show "wf (measure length)" by simp
next
  fix s :: jsstring and x2 x y
  assume "regex_exec taskRegex s = Some x2" "(x, y) = x2"
  then have "regex_exec (lit ''<task>'', lit ''</task>'') s = Some (x, y)"
    by (simp add: taskRegex_def)
  from regex_exec_length [OF this] show "(y, s) \<in> measure length"
    by (simp add: lit_def)
qed

declare task_blocks.simps [simp del]

function sub_captures :: "jsstring \<Rightarrow> jsstring list" where
  "sub_captures s =
     (case regex_exec subProblemRegex s of
        None \<Rightarrow> []
      | Some (cap, rest) \<Rightarrow> cap # sub_captures rest)"
  by pat_completeness auto
termination
proof (relation "measure length")
  show "wf (measure length)" by simp
next
  fix s :: jsstring and x2 x y
  assume "regex_exec subProblemRegex s = Some x2" "(x, y) = x2"
  then have "regex_exec (lit ''<sub_problem>'', lit ''</sub_problem>'') s = Some (x, y)"
    by (simp add: subProblemRegex_def)
  from regex_exec_length [OF this] show "(y, s) \<in> measure length"
    by (simp add: lit_def)
qed

declare sub_captures.simps [simp del]

text \<open>The sub-problem objects built from a list of captures, as a function of the captures.\<close>

fun mk_subs :: "clock \<Rightarrow> nat \<Rightarrow> nat \<Rightarrow> nat \<Rightarrow> jsstring list \<Rightarrow> sub_problem list" where
  "mk_subs now taskIndex subIndex clk [] = []"
| "mk_subs now taskIndex subIndex clk (cap # caps) =
     \<lparr>sub_id = sub_problem_id (now clk) taskIndex subIndex,
      sub_description = trim cap,
      sub_reasoning = placeholder\<rparr> # mk_subs now taskIndex (subIndex + 1) (clk + 1) caps"

text \<open>A block is accepted when it has a description tag and at least one sub-problem tag.\<close>

definition block_ok :: "jsstring \<Rightarrow> bool" where
  "block_ok b \<longleftrightarrow> has_tag descRegex b \<and> has_tag subProblemRegex b"

text \<open>
  \<open>stripped s t\<close>: the text \<open>t\<close> is \<open>s\<close> with its leading and trailing whitespace removed and
  everything between kept.
\<close>

definition stripped :: "jsstring \<Rightarrow> jsstring \<Rightarrow> bool" where
  "stripped s t \<longleftrightarrow>
     (\<exists>l r. s = l @ t @ r \<and> list_all is_js_space l \<and> list_all is_js_space r \<and>
        (t = [] \<or> \<not> is_js_space (hd t) \<and> \<not> is_js_space (last t)))"

text \<open>The identifiers of an entry and of its sub-problems, and those of a whole result.\<close>

definition ids_of :: "task_entry \<Rightarrow> jsstring list" where
  "ids_of t = task_id t # map sub_id (sub_problems t)"

definition all_ids :: "task_entry list \<Rightarrow> jsstring list" where
  "all_ids ts = concat (map ids_of ts)"

text \<open>
  \<open>no_start p y z\<close>: in the text \<open>y @ z\<close> no occurrence of the literal \<open>p\<close> starts inside \<open>y\<close>.
\<close>

fun no_start :: "'a list \<Rightarrow> 'a list \<Rightarrow> 'a list \<Rightarrow> bool" where
  "no_start p [] z = True"
| "no_start p (x # y) z = (\<not> starts_with p (x # y @ z) \<and> no_start p y z)"

text \<open>
  The literals of the tool all start with \<open><\<close> and have no other \<open><\<close>, so two occurrences
  of such literals never overlap.
\<close>

definition tag_like :: "jsstring \<Rightarrow> bool" where
  "tag_like p = (case p of [] \<Rightarrow> False | x # p' \<Rightarrow> x = 0x3C \<and> 0x3C \<notin> set p')"

section \<open>Payloads written after the tag grammar\<close>

text \<open>
  Payloads written after the tag grammar of the specification. A block is a sequence of
  elements, each a description, a reasoning or a sub-problem tag around its content and
  preceded by free text, followed by free text; a payload is a sequence of blocks, each
  preceded by free text, followed by free text. Free text and contents are plain: none of
  the eight literals of the tool occurs in them.
\<close>

datatype tag = Description | Reasoning | SubProblem

fun regex_of :: "tag \<Rightarrow> tag_regex" where
  "regex_of Description = descRegex"
| "regex_of Reasoning = reasoningRegex"
| "regex_of SubProblem = subProblemRegex"

type_synonym element = "jsstring \<times> tag \<times> jsstring"
type_synonym block = "element list \<times> jsstring"
type_synonym payload_src = "(jsstring \<times> block) list \<times> jsstring"

fun render_element :: "element \<Rightarrow> jsstring" where
  "render_element (f, k, t) = f @ fst (regex_of k) @ t @ snd (regex_of k)"

fun block_content :: "block \<Rightarrow> jsstring" where
  "block_content (es, tail) = concat (map render_element es) @ tail"

definition render_block :: "block \<Rightarrow> jsstring" where
  "render_block b = fst taskRegex @ block_content b @ snd taskRegex"

fun render_payload :: "payload_src \<Rightarrow> jsstring" where
  "render_payload (bs, tail) = concat (map (\<lambda>(f, b). f @ render_block b) bs) @ tail"

definition all_literals :: "jsstring list" where
  "all_literals = [fst taskRegex, snd taskRegex, fst descRegex, snd descRegex,
     fst reasoningRegex, snd reasoningRegex, fst subProblemRegex, snd subProblemRegex]"

definition plain :: "jsstring \<Rightarrow> bool" where
  "plain t = list_all (\<lambda>p. \<not> sublist p t) all_literals"

fun wf_element :: "element \<Rightarrow> bool" where
  "wf_element (f, k, t) = (plain f \<and> plain t)"

fun wf_block :: "block \<Rightarrow> bool" where
  "wf_block (es, tail) = (list_all wf_element es \<and> plain tail)"

fun wf_payload :: "payload_src \<Rightarrow> bool" where
  "wf_payload (bs, tail) = (list_all (\<lambda>(f, b). plain f \<and> wf_block b) bs \<and> plain tail)"

definition texts_of :: "tag \<Rightarrow> element list \<Rightarrow> jsstring list" where
  "texts_of k es = map (\<lambda>(f, k', t). t) (filter (\<lambda>(f, k', t). k' = k) es)"

definition first_text :: "tag \<Rightarrow> element list \<Rightarrow> jsstring option" where
  "first_text k es = (case texts_of k es of [] \<Rightarrow> None | t # ts \<Rightarrow> Some t)"

section \<open>What the regular expressions match\<close>

lemma starts_with_prefix: "starts_with p s \<longleftrightarrow> prefix p s"
  by (induction p s rule: starts_with.induct) auto

lemma prefix_drop: "prefix p s \<Longrightarrow> p @ drop (length p) s = s"
  by (auto simp: prefix_def)

lemma lazy_until_decomp: "lazy_until cls s = Some (cap, rest) \<Longrightarrow> s = cap @ cls @ rest"
proof (induction s arbitrary: cap)
  case Nil
  then show ?case by (cases cls) (auto split: if_splits)
next
  case (Cons c cs)
  show ?case
  proof (cases "starts_with cls (c # cs)")
    case True
    with Cons.prems have "cap = []" "rest = drop (length cls) (c # cs)" by auto
    with True prefix_drop [of cls "c # cs"] show ?thesis
      by (simp add: starts_with_prefix)
  next
    case False
    with Cons.prems obtain cap' where "lazy_until cls cs = Some (cap', rest)" "cap = c # cap'"
      by auto
    with Cons.IH [of cap'] show ?thesis by simp
  qed
qed

lemma lazy_until_None_iff: "lazy_until cls s = None \<longleftrightarrow> \<not> sublist cls s"
  by (induction s) (auto simp: starts_with_prefix sublist_Cons_right)

lemma match_at_decomp:
  "match_at (opn, cls) s = Some (cap, rest) \<Longrightarrow> s = opn @ cap @ cls @ rest"
  using prefix_drop [of opn s] lazy_until_decomp [of cls "drop (length opn) s" cap rest]
  by (auto simp: starts_with_prefix split: if_splits)

lemma match_at_None_iff:
  "match_at (opn, cls) s = None \<longleftrightarrow> \<not> (\<exists>cap rest. s = opn @ cap @ cls @ rest)"
proof (cases "prefix opn s")
  case True
  then obtain r where r: "s = opn @ r" by (auto simp: prefix_def)
  then show ?thesis
    by (auto simp: starts_with_prefix lazy_until_None_iff sublist_def)
next
  case False
  then show ?thesis by (auto simp: starts_with_prefix)
qed

lemma has_tag_Nil: "has_tag (opn, cls) [] \<longleftrightarrow> (\<exists>cap rest. [] = opn @ cap @ cls @ rest)"
  by (auto simp: has_tag_def)

lemma has_tag_Cons:
  "has_tag (opn, cls) (c # cs) \<longleftrightarrow>
     (\<exists>cap rest. c # cs = opn @ cap @ cls @ rest) \<or> has_tag (opn, cls) cs"
proof
  assume "has_tag (opn, cls) (c # cs)"
  then obtain pre cap rest where d: "c # cs = pre @ opn @ cap @ cls @ rest"
    by (auto simp: has_tag_def)
  show "(\<exists>cap rest. c # cs = opn @ cap @ cls @ rest) \<or> has_tag (opn, cls) cs"
  proof (cases pre)
    case Nil
    with d show ?thesis by auto
  next
    case (Cons x pre')
    with d have "cs = pre' @ opn @ cap @ cls @ rest" by simp
    then have "has_tag (opn, cls) cs" unfolding has_tag_def fst_conv snd_conv by blast
    then show ?thesis ..
  qed
next
  assume "(\<exists>cap rest. c # cs = opn @ cap @ cls @ rest) \<or> has_tag (opn, cls) cs"
  then show "has_tag (opn, cls) (c # cs)"
  proof
    assume "\<exists>cap rest. c # cs = opn @ cap @ cls @ rest"
    then obtain cap rest where "c # cs = [] @ opn @ cap @ cls @ rest" by auto
    then show ?thesis unfolding has_tag_def fst_conv snd_conv by blast
  next
    assume "has_tag (opn, cls) cs"
    then obtain pre cap rest where "cs = pre @ opn @ cap @ cls @ rest"
      by (auto simp: has_tag_def)
    then have "c # cs = (c # pre) @ opn @ cap @ cls @ rest" by simp
    then show ?thesis unfolding has_tag_def fst_conv snd_conv by blast
  qed
qed

lemma regex_exec_None_iff: "regex_exec re s = None \<longleftrightarrow> \<not> has_tag re s"
proof (cases re)
  case (Pair opn cls)
  have "regex_exec (opn, cls) s = None \<longleftrightarrow> \<not> has_tag (opn, cls) s"
  proof (induction s)
    case Nil
    show ?case using match_at_None_iff [of opn cls "[]"] by (simp add: has_tag_Nil)
  next
    case (Cons c cs)
    have "regex_exec (opn, cls) (c # cs) = None \<longleftrightarrow>
        match_at (opn, cls) (c # cs) = None \<and> regex_exec (opn, cls) cs = None"
      by (simp split: option.splits)
    also have "\<dots> \<longleftrightarrow> \<not> (\<exists>cap rest. c # cs = opn @ cap @ cls @ rest) \<and> \<not> has_tag (opn, cls) cs"
      unfolding match_at_None_iff Cons ..
    also have "\<dots> \<longleftrightarrow> \<not> has_tag (opn, cls) (c # cs)"
      unfolding has_tag_Cons by blast
    finally show ?case .
  qed
  with Pair show ?thesis by simp
qed

lemma regex_match_None_iff: "regex_match re s = None \<longleftrightarrow> \<not> has_tag re s"
  by (simp add: regex_match_def regex_exec_None_iff)

section \<open>The loops in closed form\<close>

lemma task_blocks_None: "regex_exec taskRegex s = None \<Longrightarrow> task_blocks s = []"
  by (simp add: task_blocks.simps)

lemma task_blocks_Some:
  "regex_exec taskRegex s = Some (b, rest) \<Longrightarrow> task_blocks s = b # task_blocks rest"
  by (simp add: task_blocks.simps)

lemma sub_captures_Nil_iff: "sub_captures s = [] \<longleftrightarrow> \<not> has_tag subProblemRegex s"
  by (simp add: sub_captures.simps [of s] regex_exec_None_iff [symmetric] split: option.splits)

lemma mk_subs_Nil_iff: "mk_subs now i k c caps = [] \<longleftrightarrow> caps = []"
  by (cases caps) auto

lemma sub_loop_eq:
  "sub_loop now s i k acc c = (acc @ mk_subs now i k c (sub_captures s), c + length (sub_captures s))"
proof (induction now s i k acc c rule: sub_loop.induct)
  case (1 now s i k acc c)
  show ?case
  proof (cases "regex_exec subProblemRegex s")
    case None
    then show ?thesis by (simp add: sub_loop.simps [of now s] sub_captures.simps [of s])
  next
    case (Some m)
    obtain cap rest where m: "m = (cap, rest)" by (cases m)
    from 1 [OF Some m [symmetric]] Some m show ?thesis
      by (simp add: sub_loop.simps [of now s] sub_captures.simps [of s])
  qed
qed

lemma task_body_eq:
  "task_body now b i c =
     (case regex_match descRegex b of
        None \<Rightarrow> Inl (msg_no_description i)
      | Some d \<Rightarrow>
          if sub_captures b = [] then Inl (msg_no_sub_problem i)
          else Inr (\<lparr>task_id = task_entry_id (now (c + length (sub_captures b))) i,
                      description = trim d,
                      reasoning = (case regex_match reasoningRegex b of
                                     Some r \<Rightarrow> trim r | None \<Rightarrow> placeholder),
                      sub_problems = mk_subs now i 0 c (sub_captures b)\<rparr>,
                    c + length (sub_captures b) + 1))"
  by (simp add: task_body_def sub_loop_eq mk_subs_Nil_iff split: option.splits)

lemma has_tag_iff_match: "has_tag re s \<longleftrightarrow> regex_match re s \<noteq> None"
  by (simp add: regex_match_None_iff)

lemma sub_captures_Nil_match: "sub_captures s = [] \<longleftrightarrow> regex_match subProblemRegex s = None"
  by (simp add: sub_captures_Nil_iff regex_match_None_iff)

lemma task_body_no_description:
  "\<not> has_tag descRegex b \<Longrightarrow> task_body now b i c = Inl (msg_no_description i)"
  by (simp add: task_body_eq has_tag_iff_match)

lemma task_body_no_sub_problem:
  "has_tag descRegex b \<Longrightarrow> \<not> has_tag subProblemRegex b \<Longrightarrow>
     task_body now b i c = Inl (msg_no_sub_problem i)"
  by (auto simp: task_body_eq has_tag_iff_match sub_captures_Nil_match)

lemma task_body_ok:
  "block_ok b \<Longrightarrow> \<exists>t c'. task_body now b i c = Inr (t, c')"
  by (auto simp: block_ok_def task_body_eq has_tag_iff_match sub_captures_Nil_match)

lemma task_loop_None: "regex_exec taskRegex s = None \<Longrightarrow> task_loop now s i acc c = Inr acc"
  by (simp add: task_loop.simps)

lemma task_loop_Inl:
  "regex_exec taskRegex s = Some (b, rest) \<Longrightarrow> task_body now b i c = Inl msg \<Longrightarrow>
     task_loop now s i acc c = Inl msg"
  by (simp add: task_loop.simps)

lemma task_loop_Inr:
  "regex_exec taskRegex s = Some (b, rest) \<Longrightarrow> task_body now b i c = Inr (t, c') \<Longrightarrow>
     task_loop now s i acc c = task_loop now rest (i + 1) (acc @ [t]) c'"
  by (simp add: task_loop.simps)

lemma task_loop_result:
  "task_loop now s i acc c = Inr res \<Longrightarrow>
     \<exists>ts. res = acc @ ts \<and> length ts = length (task_blocks s) \<and>
       (\<forall>j<length ts. \<exists>c0 c1. task_body now (task_blocks s ! j) (i + j) c0 = Inr (ts ! j, c1))"
proof (induction now s i acc c arbitrary: res rule: task_loop.induct)
  case (1 now s i acc c)
  show ?case
  proof (cases "regex_exec taskRegex s")
    case None
    with "1.prems" show ?thesis by (simp add: task_loop_None task_blocks_None)
  next
    case (Some m)
    obtain b rest where m: "m = (b, rest)" by (cases m)
    note ex = Some [unfolded m]
    show ?thesis
    proof (cases "task_body now b i c")
      case (Inl msg)
      with "1.prems" task_loop_Inl [OF ex Inl] show ?thesis by simp
    next
      case (Inr r)
      obtain t c' where r: "r = (t, c')" by (cases r)
      note body = Inr [unfolded r]
      from "1.prems" task_loop_Inr [OF ex body]
      have "task_loop now rest (i + 1) (acc @ [t]) c' = Inr res" by simp
      from "1.IH" [OF Some m [symmetric] Inr r [symmetric] this]
      obtain ts where ts: "res = (acc @ [t]) @ ts" "length ts = length (task_blocks rest)"
        "\<forall>j<length ts. \<exists>c0 c1. task_body now (task_blocks rest ! j) (i + 1 + j) c0 = Inr (ts ! j, c1)"
        by blast
      have "\<exists>c0 c1. task_body now (task_blocks s ! j) (i + j) c0 = Inr ((t # ts) ! j, c1)"
        if "j < length (t # ts)" for j
      proof (cases j)
        case 0
        with body show ?thesis by (auto simp: task_blocks_Some [OF ex])
      next
        case (Suc j')
        with that ts(3) show ?thesis by (auto simp: task_blocks_Some [OF ex])
      qed
      with ts(1,2) have "res = acc @ (t # ts) \<and> length (t # ts) = length (task_blocks s) \<and>
        (\<forall>j<length (t # ts). \<exists>c0 c1. task_body now (task_blocks s ! j) (i + j) c0 = Inr ((t # ts) ! j, c1))"
        by (simp add: task_blocks_Some [OF ex])
      then show ?thesis by blast
    qed
  qed
qed

lemma task_loop_first_failure:
  "n < length (task_blocks s) \<Longrightarrow> \<forall>j<n. block_ok (task_blocks s ! j) \<Longrightarrow>
   \<not> block_ok (task_blocks s ! n) \<Longrightarrow>
     task_loop now s i acc c =
       Inl (if has_tag descRegex (task_blocks s ! n) then msg_no_sub_problem (i + n)
            else msg_no_description (i + n))"
proof (induction n arbitrary: s i acc c)
  case 0
  then obtain b rest where ex: "regex_exec taskRegex s = Some (b, rest)"
    by (cases "regex_exec taskRegex s") (auto simp: task_blocks_None)
  with 0 have nb: "\<not> block_ok b" and b: "task_blocks s ! 0 = b"
    by (simp_all add: task_blocks_Some)
  show ?case
  proof (cases "has_tag descRegex b")
    case True
    with nb have "\<not> has_tag subProblemRegex b" by (simp add: block_ok_def)
    from task_loop_Inl [OF ex task_body_no_sub_problem [OF True this]] True b
    show ?thesis by simp
  next
    case False
    from task_loop_Inl [OF ex task_body_no_description [OF False]] False b
    show ?thesis by simp
  qed
next
  case (Suc n)
  then obtain b rest where ex: "regex_exec taskRegex s = Some (b, rest)"
    by (cases "regex_exec taskRegex s") (auto simp: task_blocks_None)
  note bl = task_blocks_Some [OF ex]
  from Suc.prems(2) bl have "block_ok b" by auto
  from task_body_ok [OF this] obtain t c' where body: "task_body now b i c = Inr (t, c')"
    by blast
  from Suc.prems bl have p: "n < length (task_blocks rest)"
    "\<forall>j<n. block_ok (task_blocks rest ! j)" "\<not> block_ok (task_blocks rest ! n)"
    by auto
  from Suc.IH [OF p, of "i + 1" "acc @ [t]" c'] task_loop_Inr [OF ex body] bl
  show ?case by simp
qed

lemma task_loop_all_ok:
  "\<forall>b\<in>set (task_blocks s). block_ok b \<Longrightarrow> \<exists>res. task_loop now s i acc c = Inr res"
proof (induction now s i acc c rule: task_loop.induct)
  case (1 now s i acc c)
  show ?case
  proof (cases "regex_exec taskRegex s")
    case None
    then show ?thesis by (simp add: task_loop_None)
  next
    case (Some m)
    obtain b rest where m: "m = (b, rest)" by (cases m)
    note ex = Some [unfolded m]
    from "1.prems" have "block_ok b" and rest: "\<forall>b\<in>set (task_blocks rest). block_ok b"
      by (simp_all add: task_blocks_Some [OF ex])
    from task_body_ok [OF this(1)] obtain t c' where body: "task_body now b i c = Inr (t, c')"
      by blast
    from "1.IH" [OF Some m [symmetric] body refl rest] task_loop_Inr [OF ex body]
    show ?thesis by simp
  qed
qed

lemma doWork_string:
  "parameters ''new_tasks'' = Some (JString payload) \<Longrightarrow> payload \<noteq> [] \<Longrightarrow>
     doWork now parameters =
       (case task_loop now payload 0 [] 0 of
          Inl msg \<Rightarrow> createFailureResult msg
        | Inr newTasks \<Rightarrow>
            if newTasks = [] then createFailureResult msg_no_tasks
            else createSuccessResult \<lparr>new_tasks = newTasks, tasks_count = length newTasks\<rparr>)"
  by (simp add: doWork_def split: sum.splits)

lemma doWork_guard:
  "\<not> (\<exists>s. parameters ''new_tasks'' = Some (JString s) \<and> s \<noteq> []) \<Longrightarrow>
     doWork now parameters = createFailureResult msg_param"
  by (cases "parameters ''new_tasks''"; cases "the (parameters ''new_tasks'')")
    (auto simp: doWork_def)

section \<open>Results of a call\<close>

lemma task_blocks_empty: "task_blocks [] = []"
  by (simp add: task_blocks.simps taskRegex_def lit_def)

lemma task_blocks_nonempty: "n < length (task_blocks payload) \<Longrightarrow> payload \<noteq> []"
  by (auto simp: task_blocks_empty)

lemma doWork_failure:
  assumes "parameters ''new_tasks'' = Some (JString payload)"
    and "task_loop now payload 0 [] 0 = Inl msg"
  shows "\<exists>msg'. doWork now parameters = createFailureResult msg'"
proof (cases "payload = []")
  case True
  with assms(1) doWork_guard [of parameters now] show ?thesis by simp
next
  case False
  with doWork_string [of parameters payload now] assms show ?thesis by simp
qed

lemma doWork_success:
  assumes "parameters ''new_tasks'' = Some (JString payload)"
    and "doWork now parameters = createSuccessResult out"
  shows "tasks_count out = length (task_blocks payload) \<and>
         length (new_tasks out) = length (task_blocks payload) \<and>
         (\<forall>j<length (new_tasks out). \<exists>c0 c1.
            task_body now (task_blocks payload ! j) j c0 = Inr (new_tasks out ! j, c1))"
proof -
  have ne: "payload \<noteq> []"
  proof
    assume "payload = []"
    with assms(1) doWork_guard [of parameters now] assms(2) show False by simp
  qed
  from doWork_string [of parameters payload now] assms ne
  obtain ts where ts: "task_loop now payload 0 [] 0 = Inr ts"
    and out: "out = \<lparr>new_tasks = ts, tasks_count = length ts\<rparr>"
    by (auto split: sum.splits if_splits)
  from task_loop_result [OF ts] out show ?thesis by auto
qed

lemma doWork_all_ok:
  assumes "parameters ''new_tasks'' = Some (JString payload)"
    and "task_blocks payload \<noteq> []"
    and "\<forall>b\<in>set (task_blocks payload). block_ok b"
  shows "\<exists>out. doWork now parameters = createSuccessResult out"
proof -
  from assms(2) have ne: "payload \<noteq> []" by (auto simp: task_blocks_empty)
  from task_loop_all_ok [OF assms(3)] obtain ts where ts: "task_loop now payload 0 [] 0 = Inr ts"
    by blast
  from task_loop_result [OF ts] assms(2) have "ts \<noteq> []" by auto
  with doWork_string [of parameters payload now] assms(1) ne ts show ?thesis by simp
qed

lemma first_bad_block:
  assumes "n < length bs" and "\<not> P (bs ! n)"
  shows "\<exists>m\<le>n. \<not> P (bs ! m) \<and> (\<forall>j<m. P (bs ! j))"
proof -
  define m where "m = (LEAST k. \<not> P (bs ! k))"
  have "\<not> P (bs ! m)" unfolding m_def using assms(2) by (rule LeastI)
  moreover have "m \<le> n" unfolding m_def using assms(2) by (rule Least_le)
  moreover have "P (bs ! j)" if "j < m" for j
    using not_less_Least [of j "\<lambda>k. \<not> P (bs ! k)"] that unfolding m_def by blast
  ultimately show ?thesis by blast
qed

lemma doWork_bad_block:
  assumes "parameters ''new_tasks'' = Some (JString payload)"
    and "n < length (task_blocks payload)"
    and "\<not> block_ok (task_blocks payload ! n)"
  shows "\<exists>msg. doWork now parameters = createFailureResult msg"
proof -
  from first_bad_block [of n "task_blocks payload" block_ok] assms(2,3) obtain m where m: "m \<le> n"
    "\<not> block_ok (task_blocks payload ! m)" "\<forall>j<m. block_ok (task_blocks payload ! j)"
    by blast
  with assms(2) have "m < length (task_blocks payload)" by simp
  from task_loop_first_failure [OF this m(3) m(2), of now 0 "[]" 0]
  obtain msg where "task_loop now payload 0 [] 0 = Inl msg" by blast
  with doWork_failure [of parameters payload now msg] assms(1) show ?thesis by simp
qed

lemma doWork_first_bad_block:
  assumes "parameters ''new_tasks'' = Some (JString payload)"
    and "n < length (task_blocks payload)"
    and "\<forall>j<n. block_ok (task_blocks payload ! j)"
    and "\<not> block_ok (task_blocks payload ! n)"
  shows "doWork now parameters =
           createFailureResult
             (if has_tag descRegex (task_blocks payload ! n) then msg_no_sub_problem n
              else msg_no_description n)"
proof -
  from assms(2) have ne: "payload \<noteq> []" by (rule task_blocks_nonempty)
  from task_loop_first_failure [OF assms(2,3,4), of now 0 "[]" 0]
    doWork_string [of parameters payload now] assms(1) ne
  show ?thesis by simp
qed

section \<open>What \<open>trim\<close> removes\<close>

lemma trim_stripped: "stripped s (trim s)"
proof -
  define l where "l = takeWhile is_js_space s"
  define m where "m = dropWhile is_js_space s"
  define r where "r = rev (takeWhile is_js_space (rev m))"
  have t: "trim s = rev (dropWhile is_js_space (rev m))"
    by (simp add: trim_def m_def)
  have "trim s @ r = rev (takeWhile is_js_space (rev m) @ dropWhile is_js_space (rev m))"
    by (simp only: t r_def rev_append)
  also have "\<dots> = rev (rev m)"
    by (simp only: takeWhile_dropWhile_id)
  finally have m: "m = trim s @ r" by simp
  have "s = l @ m" by (simp add: l_def m_def)
  with m have s: "s = l @ trim s @ r" by simp
  have l: "list_all is_js_space l"
    by (auto simp: l_def list_all_iff dest: set_takeWhileD)
  have r: "list_all is_js_space r"
    by (auto simp: r_def list_all_iff dest: set_takeWhileD)
  have e: "\<not> is_js_space (hd (trim s)) \<and> \<not> is_js_space (last (trim s))" if ne: "trim s \<noteq> []"
  proof
    from ne m have "m \<noteq> []" and "hd (trim s) = hd m" by auto
    then show "\<not> is_js_space (hd (trim s))"
      using hd_dropWhile [of is_js_space s] by (simp add: m_def)
  next
    from ne have d: "dropWhile is_js_space (rev m) \<noteq> []" by (simp add: t)
    then have "last (trim s) = hd (dropWhile is_js_space (rev m))"
      by (simp add: t last_rev)
    with hd_dropWhile [OF d] show "\<not> is_js_space (last (trim s))" by simp
  qed
  from s l r e show ?thesis unfolding stripped_def by blast
qed

lemma mk_subs_reasoning: "sp \<in> set (mk_subs now i k c caps) \<Longrightarrow> sub_reasoning sp = placeholder"
  by (induction caps arbitrary: k c) auto

lemma mk_subs_description: "map sub_description (mk_subs now i k c caps) = map trim caps"
  by (induction caps arbitrary: k c) auto

lemma task_body_fields:
  assumes "task_body now b i c = Inr (t, c')"
  shows "(\<exists>cap. regex_match descRegex b = Some cap \<and> description t = trim cap) \<and>
         reasoning t = (case regex_match reasoningRegex b of
                          Some r \<Rightarrow> trim r | None \<Rightarrow> placeholder) \<and>
         sub_problems t = mk_subs now i 0 c (sub_captures b) \<and>
         sub_captures b \<noteq> [] \<and>
         task_id t = task_entry_id (now (c + length (sub_captures b))) i"
  using assms by (auto simp: task_body_eq split: option.splits if_splits)

section \<open>The generated identifiers\<close>

lemma unat_digit_char: "d < 10 \<Longrightarrow> unat (digit_char d) = 48 + d"
proof -
  assume d: "d < 10"
  have "unat (of_nat (48 + d) :: 16 word) = (48 + d) mod 2 ^ LENGTH(16)"
    by (rule unat_of_nat)
  with d show ?thesis by (simp add: digit_char_def)
qed

lemma digit_char_inj: "d < 10 \<Longrightarrow> e < 10 \<Longrightarrow> digit_char d = digit_char e \<Longrightarrow> d = e"
proof -
  assume d: "d < 10" and e: "e < 10" and eq: "digit_char d = digit_char e"
  from eq have "unat (digit_char d) = unat (digit_char e)" by (rule arg_cong)
  then have "48 + d = 48 + e"
    by (simp only: unat_digit_char [OF d] unat_digit_char [OF e])
  then show ?thesis by simp
qed

lemma digit_char_not_underscore: "d < 10 \<Longrightarrow> digit_char d \<noteq> 0x5F"
proof
  assume d: "d < 10" and eq: "digit_char d = 0x5F"
  from eq have "unat (digit_char d) = unat (0x5F :: jschar)" by (rule arg_cong)
  then have "48 + d = 95" by (simp add: unat_digit_char [OF d])
  with d show False by simp
qed

lemma show_nat_small: "n < 10 \<Longrightarrow> show_nat n = [digit_char n]"
  by (subst show_nat.simps) simp

lemma show_nat_large:
  "\<not> n < 10 \<Longrightarrow> show_nat n = show_nat (n div 10) @ [digit_char (n mod 10)]"
  by (subst show_nat.simps) simp

lemma show_nat_not_Nil: "show_nat n \<noteq> []"
  by (cases "n < 10") (simp_all add: show_nat_small show_nat_large)

lemma show_nat_no_underscore: "0x5F \<notin> set (show_nat n)"
proof (induction n rule: show_nat.induct)
  case (1 n)
  show ?case
  proof (cases "n < 10")
    case True
    with digit_char_not_underscore [of n] show ?thesis
      by (simp add: show_nat_small)
  next
    case False
    have "n mod 10 < 10" by simp
    from digit_char_not_underscore [OF this] 1 [OF False] False show ?thesis
      by (simp add: show_nat_large)
  qed
qed

lemma show_nat_inj: "show_nat n = show_nat m \<Longrightarrow> n = m"
proof (induction n arbitrary: m rule: show_nat.induct)
  case (1 n)
  show ?case
  proof (cases "n < 10")
    case True
    note n = this
    show ?thesis
    proof (cases "m < 10")
      case True
      with n "1.prems" digit_char_inj [of n m] show ?thesis
        by (simp add: show_nat_small show_nat_large)
    next
      case False
      with n "1.prems" show_nat_not_Nil [of "m div 10"] show ?thesis
        by (simp add: show_nat_small show_nat_large)
    qed
  next
    case False
    note n = this
    show ?thesis
    proof (cases "m < 10")
      case True
      with n "1.prems" show_nat_not_Nil [of "n div 10"] show ?thesis
        by (simp add: show_nat_small show_nat_large)
    next
      case False
      with n "1.prems" have e: "show_nat (n div 10) = show_nat (m div 10)"
        and d: "digit_char (n mod 10) = digit_char (m mod 10)"
        by (simp_all add: show_nat_small show_nat_large)
      from "1.IH" [OF n e] have "n div 10 = m div 10" .
      moreover from digit_char_inj [OF _ _ d] have "n mod 10 = m mod 10" by simp
      ultimately show ?thesis by (metis div_mult_mod_eq)
    qed
  qed
qed

lemma show_int_no_underscore: "0x5F \<notin> set (show_int t)"
  by (simp add: show_int_def lit_def show_nat_no_underscore)

lemma split_at_separator:
  "c \<notin> set a \<Longrightarrow> c \<notin> set b \<Longrightarrow> a @ c # r = b @ c # r' \<Longrightarrow> a = b \<and> r = r'"
proof (induction a arbitrary: b)
  case Nil
  then show ?case by (cases b) auto
next
  case (Cons x a)
  then show ?case by (cases b) auto
qed

lemma task_entry_id_index: "task_entry_id t i = task_entry_id t' j \<Longrightarrow> i = j"
proof -
  assume "task_entry_id t i = task_entry_id t' j"
  then have "show_int t @ 0x5F # show_nat i = show_int t' @ 0x5F # show_nat j"
    by (simp add: task_entry_id_def lit_def)
  from split_at_separator [OF show_int_no_underscore show_int_no_underscore this]
  show ?thesis by (simp add: show_nat_inj)
qed

lemma sub_problem_id_index:
  "sub_problem_id t i k = sub_problem_id t' j l \<Longrightarrow> i = j \<and> k = l"
proof -
  assume "sub_problem_id t i k = sub_problem_id t' j l"
  then have "show_int t @ 0x5F # (show_nat i @ 0x5F # show_nat k)
    = show_int t' @ 0x5F # (show_nat j @ 0x5F # show_nat l)"
    by (simp add: sub_problem_id_def lit_def)
  from split_at_separator [OF show_int_no_underscore show_int_no_underscore this]
  have "show_nat i @ 0x5F # show_nat k = show_nat j @ 0x5F # show_nat l" by simp
  from split_at_separator [OF show_nat_no_underscore show_nat_no_underscore this]
  show ?thesis by (auto dest: show_nat_inj)
qed

lemma task_entry_id_not_sub: "task_entry_id t i \<noteq> sub_problem_id t' j k"
  by (simp add: task_entry_id_def sub_problem_id_def lit_def)

lemma mk_subs_ids:
  "x \<in> set (map sub_id (mk_subs now i k c caps)) \<Longrightarrow> \<exists>T l. k \<le> l \<and> x = sub_problem_id T i l"
proof (induction caps arbitrary: k c)
  case Nil
  then show ?case by simp
next
  case (Cons cap caps)
  from Cons.prems have "x = sub_problem_id (now c) i k \<or>
    x \<in> set (map sub_id (mk_subs now i (k + 1) (c + 1) caps))" by auto
  then show ?case
  proof
    assume "x = sub_problem_id (now c) i k"
    then show ?thesis by blast
  next
    assume "x \<in> set (map sub_id (mk_subs now i (k + 1) (c + 1) caps))"
    from Cons.IH [OF this] obtain T l where "k + 1 \<le> l" "x = sub_problem_id T i l" by blast
    then have "k \<le> l \<and> x = sub_problem_id T i l" by simp
    then show ?thesis by blast
  qed
qed

lemma mk_subs_ids_distinct: "distinct (map sub_id (mk_subs now i k c caps))"
proof (induction caps arbitrary: k c)
  case Nil
  show ?case by simp
next
  case (Cons cap caps)
  have "sub_problem_id (now c) i k \<notin> set (map sub_id (mk_subs now i (k + 1) (c + 1) caps))"
  proof
    assume "sub_problem_id (now c) i k \<in> set (map sub_id (mk_subs now i (k + 1) (c + 1) caps))"
    from mk_subs_ids [OF this] obtain T l where l: "k + 1 \<le> l"
      and eq: "sub_problem_id (now c) i k = sub_problem_id T i l" by blast
    from sub_problem_id_index [OF eq] l show False by simp
  qed
  with Cons.IH [of "k + 1" "c + 1"] show ?case by simp
qed

lemma ids_of_task_body:
  assumes "task_body now b i c = Inr (t, c')"
  shows "distinct (ids_of t)"
    and "\<forall>x\<in>set (ids_of t). (\<exists>T. x = task_entry_id T i) \<or> (\<exists>T k. x = sub_problem_id T i k)"
proof -
  note f = task_body_fields [OF assms]
  from f have tid: "task_id t = task_entry_id (now (c + length (sub_captures b))) i"
    and subs: "sub_problems t = mk_subs now i 0 c (sub_captures b)" by simp_all
  have "task_id t \<notin> set (map sub_id (sub_problems t))"
  proof
    assume "task_id t \<in> set (map sub_id (sub_problems t))"
    with subs mk_subs_ids [of "task_id t" now i 0 c "sub_captures b"]
    obtain T l where "task_id t = sub_problem_id T i l" by auto
    with tid have "task_entry_id (now (c + length (sub_captures b))) i = sub_problem_id T i l"
      by simp
    with task_entry_id_not_sub show False by blast
  qed
  with subs mk_subs_ids_distinct [of now i 0 c "sub_captures b"]
  show "distinct (ids_of t)" by (simp add: ids_of_def)
  show "\<forall>x\<in>set (ids_of t). (\<exists>T. x = task_entry_id T i) \<or> (\<exists>T k. x = sub_problem_id T i k)"
  proof
    fix x assume "x \<in> set (ids_of t)"
    then have "x = task_id t \<or> x \<in> set (map sub_id (sub_problems t))"
      by (auto simp: ids_of_def)
    then show "(\<exists>T. x = task_entry_id T i) \<or> (\<exists>T k. x = sub_problem_id T i k)"
    proof
      assume "x = task_id t"
      with tid show ?thesis by blast
    next
      assume "x \<in> set (map sub_id (sub_problems t))"
      with subs mk_subs_ids [of x now i 0 c "sub_captures b"] show ?thesis by auto
    qed
  qed
qed

lemma id_index_unique:
  assumes "(\<exists>T. x = task_entry_id T i) \<or> (\<exists>T k. x = sub_problem_id T i k)"
    and "(\<exists>T. x = task_entry_id T j) \<or> (\<exists>T k. x = sub_problem_id T j k)"
  shows "i = j"
  using assms task_entry_id_index sub_problem_id_index task_entry_id_not_sub
  by metis

lemma all_ids_distinct:
  assumes "\<forall>j<length ts. \<exists>b c0 c1. task_body now b (i + j) c0 = Inr (ts ! j, c1)"
  shows "distinct (all_ids ts) \<and>
         (\<forall>x\<in>set (all_ids ts). \<exists>j\<ge>i. (\<exists>T. x = task_entry_id T j) \<or> (\<exists>T k. x = sub_problem_id T j k))"
  using assms
proof (induction ts arbitrary: i)
  case Nil
  show ?case by (simp add: all_ids_def)
next
  case (Cons t ts)
  from Cons.prems have "\<exists>b c0 c1. task_body now b (i + 0) c0 = Inr ((t # ts) ! 0, c1)"
    by blast
  then obtain b c0 c1 where body: "task_body now b i c0 = Inr (t, c1)" by auto
  note hd = ids_of_task_body [OF body]
  have "\<forall>j<length ts. \<exists>b c0 c1. task_body now b (i + 1 + j) c0 = Inr (ts ! j, c1)"
  proof (intro allI impI)
    fix j assume "j < length ts"
    then have "Suc j < length (t # ts)" by simp
    with Cons.prems have "\<exists>b c0 c1. task_body now b (i + Suc j) c0 = Inr ((t # ts) ! Suc j, c1)"
      by blast
    then show "\<exists>b c0 c1. task_body now b (i + 1 + j) c0 = Inr (ts ! j, c1)" by simp
  qed
  from Cons.IH [OF this] have tl: "distinct (all_ids ts)"
    and tl_idx: "\<forall>x\<in>set (all_ids ts). \<exists>j\<ge>i + 1.
        (\<exists>T. x = task_entry_id T j) \<or> (\<exists>T k. x = sub_problem_id T j k)"
    by blast+
  have disj: "set (ids_of t) \<inter> set (all_ids ts) = {}"
  proof (rule ccontr)
    assume "set (ids_of t) \<inter> set (all_ids ts) \<noteq> {}"
    then obtain x where x: "x \<in> set (ids_of t)" "x \<in> set (all_ids ts)" by blast
    from hd(2) x(1) have a: "(\<exists>T. x = task_entry_id T i) \<or> (\<exists>T k. x = sub_problem_id T i k)"
      by blast
    from tl_idx x(2) obtain j where j: "i + 1 \<le> j"
      and b: "(\<exists>T. x = task_entry_id T j) \<or> (\<exists>T k. x = sub_problem_id T j k)" by blast
    from id_index_unique [OF a b] j show False by simp
  qed
  have "\<exists>j\<ge>i. (\<exists>T. x = task_entry_id T j) \<or> (\<exists>T k. x = sub_problem_id T j k)"
    if "x \<in> set (all_ids (t # ts))" for x
  proof -
    from that have "x \<in> set (ids_of t) \<or> x \<in> set (all_ids ts)" by (auto simp: all_ids_def)
    then show ?thesis
    proof
      assume "x \<in> set (ids_of t)"
      with hd(2) have "(\<exists>T. x = task_entry_id T i) \<or> (\<exists>T k. x = sub_problem_id T i k)" by blast
      then show ?thesis by blast
    next
      assume "x \<in> set (all_ids ts)"
      with tl_idx obtain j where "i + 1 \<le> j"
        "(\<exists>T. x = task_entry_id T j) \<or> (\<exists>T k. x = sub_problem_id T j k)" by blast
      then have "i \<le> j \<and> ((\<exists>T. x = task_entry_id T j) \<or> (\<exists>T k. x = sub_problem_id T j k))"
        by simp
      then show ?thesis by blast
    qed
  qed
  moreover from hd(1) tl disj have "distinct (all_ids (t # ts))"
    by (simp add: all_ids_def)
  ultimately show ?case by blast
qed

section \<open>Where a literal can start\<close>

lemma no_start_append:
  "no_start p (y @ y') z \<longleftrightarrow> no_start p y (y' @ z) \<and> no_start p y' z"
  by (induction y) auto

lemma no_start_chars: "a \<notin> set t \<Longrightarrow> no_start (a # p') t z"
  by (induction t) auto

lemma no_straddle_prefix:
  assumes "a \<notin> set p'" and "\<not> sublist (a # p') t" and "t \<noteq> []" and "z = [] \<or> hd z = a"
  shows "\<not> prefix (a # p') (t @ z)"
proof
  assume "prefix (a # p') (t @ z)"
  then consider "prefix (a # p') t" | us where "a # p' = t @ us" "prefix us z"
    by (auto simp: prefix_append)
  then show False
  proof cases
    case 1
    then have "sublist (a # p') t" by (rule prefix_imp_sublist)
    with assms(2) show False ..
  next
    case 2
    show False
    proof (cases us)
      case Nil
      with 2 assms(2) show False by simp
    next
      case (Cons u us')
      with 2(2) assms(4) have "u = a" by (cases z) auto
      moreover from assms(3) obtain x t' where "t = x # t'" by (cases t) auto
      ultimately have "a \<in> set p'" using 2(1) Cons by auto
      with assms(1) show False ..
    qed
  qed
qed

lemma no_start_text:
  assumes "a \<notin> set p'" and "\<not> sublist (a # p') t" and "z = [] \<or> hd z = a"
  shows "no_start (a # p') t z"
  using assms(2)
proof (induction t)
  case Nil
  show ?case by simp
next
  case (Cons x t)
  from Cons.prems have "\<not> sublist (a # p') t" by (simp add: sublist_Cons_right)
  with Cons.IH have "no_start (a # p') t z" .
  moreover from no_straddle_prefix [OF assms(1) Cons.prems _ assms(3)]
  have "\<not> starts_with (a # p') (x # t @ z)" by (simp add: starts_with_prefix)
  ultimately show ?case by simp
qed

lemma no_start_tag:
  assumes "a \<notin> set t'" and "\<not> prefix (a # p') (a # t')" and "\<not> prefix (a # t') (a # p')"
  shows "no_start (a # p') (a # t') z"
proof -
  have "\<not> prefix (a # p') ((a # t') @ z)"
  proof
    assume "prefix (a # p') ((a # t') @ z)"
    then have "prefix (a # p') (a # t') \<or> (\<exists>us. a # p' = (a # t') @ us)"
      unfolding prefix_append by blast
    with assms(2,3) show False by (auto simp: prefix_def)
  qed
  with no_start_chars [OF assms(1)] show ?thesis by (simp add: starts_with_prefix)
qed

lemma no_start_text_tag:
  "tag_like p \<Longrightarrow> \<not> sublist p t \<Longrightarrow> z = [] \<or> hd z = 0x3C \<Longrightarrow> no_start p t z"
  by (cases p) (auto simp: tag_like_def intro: no_start_text)

lemma no_start_tag_tag:
  assumes "tag_like p" and "tag_like t" and "\<not> prefix p t" and "\<not> prefix t p"
  shows "no_start p t z"
proof -
  from assms(1) obtain p' where p: "p = 0x3C # p'" by (cases p) (auto simp: tag_like_def)
  from assms(2) obtain t' where t: "t = 0x3C # t'" "0x3C \<notin> set t'"
    by (cases t) (auto simp: tag_like_def)
  from no_start_tag [OF t(2), of p' z] assms(3,4) show ?thesis
    unfolding p t by blast
qed

lemma tag_like_hd: "tag_like p \<Longrightarrow> hd (p @ z) = 0x3C"
  by (cases p) (auto simp: tag_like_def)

lemma tag_like_not_Nil: "tag_like p \<Longrightarrow> p \<noteq> []"
  by (auto simp: tag_like_def)

lemma regex_exec_no_start:
  "no_start opn y z \<Longrightarrow> regex_exec (opn, cls) (y @ z) = regex_exec (opn, cls) z"
  by (induction y) auto

lemma lazy_until_no_start:
  "no_start cls y z \<Longrightarrow>
     lazy_until cls (y @ z) = map_option (\<lambda>(cap, rest). (y @ cap, rest)) (lazy_until cls z)"
proof (induction y)
  case Nil
  show ?case by (cases "lazy_until cls z") auto
next
  case (Cons x y)
  then show ?case by (cases "lazy_until cls z") auto
qed

lemma lazy_until_here: "cls \<noteq> [] \<Longrightarrow> lazy_until cls (cls @ post) = Some ([], post)"
  by (cases cls) (auto simp: starts_with_prefix)

lemma lazy_until_hit:
  "cls \<noteq> [] \<Longrightarrow> no_start cls d (cls @ post) \<Longrightarrow> lazy_until cls (d @ cls @ post) = Some (d, post)"
  by (simp add: lazy_until_no_start lazy_until_here)

lemma regex_exec_hit:
  assumes "opn \<noteq> []" and "cls \<noteq> []" and "no_start cls d (cls @ post)"
  shows "regex_exec (opn, cls) (opn @ d @ cls @ post) = Some (d, post)"
proof -
  from assms(1) obtain x o' where o: "opn = x # o'" by (cases opn) auto
  have "match_at (opn, cls) (opn @ d @ cls @ post) = Some (d, post)"
    using lazy_until_hit [OF assms(2,3)] by (simp add: starts_with_prefix)
  then show ?thesis by (simp add: o)
qed

text \<open>The first occurrence of an opening literal, closed by the first closing literal.\<close>

lemma regex_exec_first:
  assumes "tag_like opn" and "tag_like cls"
    and "\<not> sublist opn pre" and "\<not> sublist cls d"
  shows "regex_exec (opn, cls) (pre @ opn @ d @ cls @ post) = Some (d, post)"
proof -
  have "hd (opn @ d @ cls @ post) = 0x3C" using assms(1) by (rule tag_like_hd)
  with assms(1,3) have "no_start opn pre (opn @ d @ cls @ post)"
    by (intro no_start_text_tag) simp_all
  then have "regex_exec (opn, cls) (pre @ opn @ d @ cls @ post)
    = regex_exec (opn, cls) (opn @ d @ cls @ post)"
    by (rule regex_exec_no_start)
  moreover have "hd (cls @ post) = 0x3C" using assms(2) by (rule tag_like_hd)
  with assms(2,4) have "no_start cls d (cls @ post)"
    by (intro no_start_text_tag) simp_all
  ultimately show ?thesis
    using regex_exec_hit [of opn cls d post] assms(1,2) by (simp add: tag_like_not_Nil)
qed

lemma tag_like_regexes:
  "tag_like (fst taskRegex)" "tag_like (snd taskRegex)"
  "tag_like (fst descRegex)" "tag_like (snd descRegex)"
  "tag_like (fst reasoningRegex)" "tag_like (snd reasoningRegex)"
  "tag_like (fst subProblemRegex)" "tag_like (snd subProblemRegex)"
  by (simp_all add: tag_like_def taskRegex_def descRegex_def reasoningRegex_def
      subProblemRegex_def lit_def)

section \<open>Matching in payloads of the grammar\<close>

lemma literals_tag_like: "p \<in> set all_literals \<Longrightarrow> tag_like p"
  using tag_like_regexes by (auto simp: all_literals_def)

lemma literals_incomparable:
  "p \<in> set all_literals \<Longrightarrow> q \<in> set all_literals \<Longrightarrow> p \<noteq> q \<Longrightarrow> \<not> prefix p q"
  by (auto simp: all_literals_def taskRegex_def descRegex_def reasoningRegex_def
      subProblemRegex_def lit_def)

lemma regex_of_literals:
  "fst (regex_of k) \<in> set all_literals" "snd (regex_of k) \<in> set all_literals"
  by (cases k; simp add: all_literals_def)+

lemma task_literals: "fst taskRegex \<in> set all_literals" "snd taskRegex \<in> set all_literals"
  by (simp_all add: all_literals_def)

lemma regex_of_distinct:
  "k \<noteq> k0 \<Longrightarrow> fst (regex_of k0) \<noteq> fst (regex_of k)"
  "fst (regex_of k0) \<noteq> snd (regex_of k)"
  "snd taskRegex \<noteq> fst (regex_of k)" "snd taskRegex \<noteq> snd (regex_of k)"
  by (cases k; cases k0; simp add: taskRegex_def descRegex_def reasoningRegex_def
      subProblemRegex_def lit_def)+

lemma plain_no_literal: "plain t \<Longrightarrow> p \<in> set all_literals \<Longrightarrow> \<not> sublist p t"
  by (simp add: plain_def list_all_iff)

lemma no_start_plain:
  "plain t \<Longrightarrow> p \<in> set all_literals \<Longrightarrow> z = [] \<or> hd z = 0x3C \<Longrightarrow> no_start p t z"
  by (intro no_start_text_tag literals_tag_like plain_no_literal)

lemma no_start_literal:
  "p \<in> set all_literals \<Longrightarrow> q \<in> set all_literals \<Longrightarrow> p \<noteq> q \<Longrightarrow> no_start p q z"
  by (intro no_start_tag_tag literals_tag_like literals_incomparable) auto

lemma literal_hd: "p \<in> set all_literals \<Longrightarrow> hd (p @ z) = 0x3C"
  by (intro tag_like_hd literals_tag_like)

lemma no_start_element:
  assumes "p \<in> set all_literals" and "wf_element (f, k, t)"
    and "p \<noteq> fst (regex_of k)" and "p \<noteq> snd (regex_of k)"
  shows "no_start p (render_element (f, k, t)) z"
proof -
  from assms(2) have f: "plain f" and t: "plain t" by simp_all
  have "no_start p f (fst (regex_of k) @ t @ snd (regex_of k) @ z)"
    using f assms(1) literal_hd [OF regex_of_literals(1)] by (intro no_start_plain) simp_all
  moreover have "no_start p (fst (regex_of k)) (t @ snd (regex_of k) @ z)"
    using assms(1) regex_of_literals(1) assms(3) by (rule no_start_literal)
  moreover have "no_start p t (snd (regex_of k) @ z)"
    using t assms(1) literal_hd [OF regex_of_literals(2)] by (intro no_start_plain) simp_all
  moreover have "no_start p (snd (regex_of k)) z"
    using assms(1) regex_of_literals(2) assms(4) by (rule no_start_literal)
  ultimately show ?thesis by (simp add: no_start_append)
qed

lemma regex_exec_other_element:
  assumes "k \<noteq> k0" and "wf_element (f, k, t)"
  shows "regex_exec (regex_of k0) (render_element (f, k, t) @ z) = regex_exec (regex_of k0) z"
proof -
  have "no_start (fst (regex_of k0)) (render_element (f, k, t)) z"
    using regex_of_literals(1) assms(2) regex_of_distinct(1) [OF assms(1)] regex_of_distinct(2)
    by (rule no_start_element)
  from regex_exec_no_start [OF this, of "snd (regex_of k0)"] show ?thesis by simp
qed

lemma regex_exec_same_element:
  assumes "wf_element (f, k, t)"
  shows "regex_exec (regex_of k) (render_element (f, k, t) @ z) = Some (t, z)"
proof -
  let ?o = "fst (regex_of k)" and ?c = "snd (regex_of k)"
  from assms have f: "plain f" and t: "plain t" by simp_all
  have "no_start ?o f (?o @ t @ ?c @ z)"
    using f regex_of_literals(1) literal_hd [OF regex_of_literals(1)]
    by (intro no_start_plain) simp_all
  from regex_exec_no_start [OF this, of ?c]
  have "regex_exec (regex_of k) (render_element (f, k, t) @ z)
    = regex_exec (?o, ?c) (?o @ t @ ?c @ z)" by simp
  moreover have "no_start ?c t (?c @ z)"
    using t regex_of_literals(2) literal_hd [OF regex_of_literals(2)]
    by (intro no_start_plain) simp_all
  moreover have "?o \<noteq> []" "?c \<noteq> []"
    using literals_tag_like [OF regex_of_literals(1)] literals_tag_like [OF regex_of_literals(2)]
    by (auto dest: tag_like_not_Nil)
  ultimately show ?thesis using regex_exec_hit [of ?o ?c t z] by simp
qed

lemma regex_exec_plain:
  assumes "plain t" and "fst re \<in> set all_literals"
  shows "regex_exec re t = None"
proof -
  have "no_start (fst re) t []" using assms by (intro no_start_plain) simp_all
  from regex_exec_no_start [OF this, of "snd re"]
  have "regex_exec re t = regex_exec (fst re, snd re) []" by simp
  also have "\<dots> = None"
    using tag_like_not_Nil [OF literals_tag_like [OF assms(2)]] by (cases "fst re") auto
  finally show ?thesis .
qed

lemma regex_match_block:
  "wf_block (es, tail) \<Longrightarrow> regex_match (regex_of k0) (block_content (es, tail)) = first_text k0 es"
proof (induction es)
  case Nil
  then show ?case
    using regex_exec_plain [of tail "regex_of k0"] regex_of_literals(1) [of k0]
    by (simp add: regex_match_def first_text_def texts_of_def)
next
  case (Cons e es)
  obtain f k t where e: "e = (f, k, t)" by (cases e)
  from Cons.prems e have we: "wf_element (f, k, t)" and wb: "wf_block (es, tail)" by simp_all
  show ?case
  proof (cases "k = k0")
    case True
    with regex_exec_same_element [OF we, of "block_content (es, tail)"] e show ?thesis
      by (simp add: regex_match_def first_text_def texts_of_def)
  next
    case False
    with regex_exec_other_element [OF False we, of "block_content (es, tail)"] Cons.IH [OF wb] e
    show ?thesis by (simp add: regex_match_def first_text_def texts_of_def)
  qed
qed

lemma sub_captures_Some:
  "regex_exec subProblemRegex s = Some (cap, rest) \<Longrightarrow> sub_captures s = cap # sub_captures rest"
  by (simp add: sub_captures.simps [of s])

lemma sub_captures_cong:
  "regex_exec subProblemRegex s = regex_exec subProblemRegex s' \<Longrightarrow> sub_captures s = sub_captures s'"
  by (simp add: sub_captures.simps [of s] sub_captures.simps [of s'])

lemma sub_captures_block:
  "wf_block (es, tail) \<Longrightarrow> sub_captures (block_content (es, tail)) = texts_of SubProblem es"
proof (induction es)
  case Nil
  then show ?case
    using regex_exec_plain [of tail subProblemRegex] regex_of_literals(1) [of SubProblem]
    by (simp add: sub_captures.simps [of tail] texts_of_def)
next
  case (Cons e es)
  obtain f k t where e: "e = (f, k, t)" by (cases e)
  from Cons.prems e have we: "wf_element (f, k, t)" and wb: "wf_block (es, tail)" by simp_all
  let ?z = "block_content (es, tail)"
  show ?case
  proof (cases "k = SubProblem")
    case True
    with regex_exec_same_element [OF we, of ?z]
    have "regex_exec subProblemRegex (render_element (f, k, t) @ ?z) = Some (t, ?z)" by simp
    then have "sub_captures (render_element (f, k, t) @ ?z) = t # sub_captures ?z"
      by (rule sub_captures_Some)
    with Cons.IH [OF wb] e True show ?thesis by (simp add: texts_of_def)
  next
    case False
    with regex_exec_other_element [OF False we, of ?z]
    have "regex_exec subProblemRegex (render_element (f, k, t) @ ?z)
      = regex_exec subProblemRegex ?z" by simp
    then have "sub_captures (render_element (f, k, t) @ ?z) = sub_captures ?z"
      by (rule sub_captures_cong)
    with Cons.IH [OF wb] e False show ?thesis by (simp add: texts_of_def)
  qed
qed

lemma no_task_end_in_block:
  "wf_block (es, tail) \<Longrightarrow> no_start (snd taskRegex) (block_content (es, tail)) (snd taskRegex @ z)"
proof (induction es)
  case Nil
  then show ?case
    using no_start_plain [of tail "snd taskRegex" "snd taskRegex @ z"] task_literals(2)
      literal_hd [OF task_literals(2)]
    by simp
next
  case (Cons e es)
  obtain f k t where e: "e = (f, k, t)" by (cases e)
  from Cons.prems e have we: "wf_element (f, k, t)" and wb: "wf_block (es, tail)" by simp_all
  from no_start_element [OF task_literals(2) we regex_of_distinct(3) regex_of_distinct(4)]
    Cons.IH [OF wb] e
  show ?case by (simp add: no_start_append)
qed

lemma regex_exec_task_block:
  assumes "plain f" and "wf_block b"
  shows "regex_exec taskRegex (f @ render_block b @ z) = Some (block_content b, z)"
proof -
  let ?o = "fst taskRegex" and ?c = "snd taskRegex"
  obtain es tail where b: "b = (es, tail)" by (cases b)
  have "no_start ?o f (render_block b @ z)"
    using assms(1) task_literals(1) literal_hd [OF task_literals(1)]
    by (intro no_start_plain) (simp_all add: render_block_def)
  from regex_exec_no_start [OF this, of ?c]
  have "regex_exec taskRegex (f @ render_block b @ z)
    = regex_exec (?o, ?c) (?o @ block_content b @ ?c @ z)"
    by (simp add: render_block_def)
  moreover have "no_start ?c (block_content b) (?c @ z)"
    using no_task_end_in_block assms(2) unfolding b by blast
  moreover have "?o \<noteq> []" "?c \<noteq> []"
    using literals_tag_like [OF task_literals(1)] literals_tag_like [OF task_literals(2)]
    by (auto dest: tag_like_not_Nil)
  ultimately show ?thesis using regex_exec_hit [of ?o ?c "block_content b" z] by simp
qed

lemma task_blocks_render:
  "wf_payload (bs, tail) \<Longrightarrow> task_blocks (render_payload (bs, tail)) = map (\<lambda>(f, b). block_content b) bs"
proof (induction bs)
  case Nil
  then show ?case
    using regex_exec_plain [of tail taskRegex] task_literals(1)
    by (simp add: task_blocks_None)
next
  case (Cons x bs)
  obtain f b where x: "x = (f, b)" by (cases x)
  from Cons.prems x have f: "plain f" and b: "wf_block b" and r: "wf_payload (bs, tail)"
    by simp_all
  from regex_exec_task_block [OF f b, of "render_payload (bs, tail)"]
  have "task_blocks (render_payload (x # bs, tail)) = block_content b # task_blocks (render_payload (bs, tail))"
    by (simp add: x task_blocks_Some)
  with Cons.IH [OF r] x show ?case by simp
qed

text \<open>A match starts at the first opening literal and ends at the first closing literal.\<close>

lemma lazy_until_no_start_before:
  "lazy_until cls s = Some (d, post) \<Longrightarrow> no_start cls d (cls @ post)"
proof (induction s arbitrary: d)
  case Nil
  then show ?case by (auto split: if_splits)
next
  case (Cons c cs)
  show ?case
  proof (cases "starts_with cls (c # cs)")
    case True
    with Cons.prems show ?thesis by simp
  next
    case False
    with Cons.prems obtain d' where d': "lazy_until cls cs = Some (d', post)" "d = c # d'"
      by auto
    from lazy_until_decomp [OF d'(1)] have "cs = d' @ cls @ post" .
    with False Cons.IH [OF d'(1)] d'(2) show ?thesis by simp
  qed
qed

lemma no_start_not_sublist: "p \<noteq> [] \<Longrightarrow> no_start p y z \<Longrightarrow> \<not> sublist p y"
proof (induction y)
  case Nil
  then show ?case by simp
next
  case (Cons x y)
  from Cons.prems have "\<not> prefix p (x # y @ z)" and "no_start p y z"
    by (simp_all add: starts_with_prefix)
  moreover have "prefix p ((x # y) @ z)" if "prefix p (x # y)"
    using that by (rule prefix_prefix)
  ultimately show ?case using Cons.IH [OF Cons.prems(1)]
    by (auto simp: sublist_Cons_right)
qed

lemma regex_exec_no_start_before:
  "regex_exec (opn, cls) s = Some (d, post) \<Longrightarrow>
     \<exists>pre. s = pre @ opn @ d @ cls @ post \<and> no_start opn pre (opn @ d @ cls @ post) \<and>
       no_start cls d (cls @ post)"
proof (induction s)
  case Nil
  then have m: "match_at (opn, cls) [] = Some (d, post)" by simp
  from match_at_decomp [OF m] have "[] = [] @ opn @ d @ cls @ post" by simp
  moreover from m have "no_start cls d (cls @ post)"
    by (auto split: if_splits dest: lazy_until_no_start_before)
  moreover have "no_start opn [] (opn @ d @ cls @ post)" by simp
  ultimately show ?case by blast
next
  case (Cons c cs)
  show ?case
  proof (cases "match_at (opn, cls) (c # cs)")
    case (Some m)
    with Cons.prems have m: "match_at (opn, cls) (c # cs) = Some (d, post)" by simp
    from match_at_decomp [OF m] have "c # cs = [] @ opn @ d @ cls @ post" by simp
    moreover from m have "no_start cls d (cls @ post)"
      by (auto split: if_splits dest: lazy_until_no_start_before)
    moreover have "no_start opn [] (opn @ d @ cls @ post)" by simp
    ultimately show ?thesis by blast
  next
    case None
    with Cons.prems have "regex_exec (opn, cls) cs = Some (d, post)" by simp
    from Cons.IH [OF this] obtain pre where pre: "cs = pre @ opn @ d @ cls @ post"
      "no_start opn pre (opn @ d @ cls @ post)" "no_start cls d (cls @ post)" by blast
    have "\<not> starts_with opn (c # cs)"
    proof
      assume st: "starts_with opn (c # cs)"
      with None have "lazy_until cls (drop (length opn) (c # cs)) = None" by simp
      then have ns: "\<not> sublist cls (drop (length opn) (c # cs))"
        by (simp add: lazy_until_None_iff)
      have "c # cs = (c # pre @ opn @ d) @ cls @ post"
        using pre(1) by simp
      then have "drop (length opn) (c # cs)
        = drop (length opn) (c # pre @ opn @ d)
            @ drop (length opn - length (c # pre @ opn @ d)) (cls @ post)"
        by (simp only: drop_append)
      moreover have "length opn - length (c # pre @ opn @ d) = 0" by simp
      ultimately have "drop (length opn) (c # cs)
        = drop (length opn) (c # pre @ opn @ d) @ cls @ post"
        by (simp only: drop_0)
      then have "sublist cls (drop (length opn) (c # cs))"
        unfolding sublist_def by blast
      with ns show False ..
    qed
    with pre have "c # cs = (c # pre) @ opn @ d @ cls @ post \<and>
      no_start opn (c # pre) (opn @ d @ cls @ post) \<and> no_start cls d (cls @ post)"
      by simp
    then show ?thesis by blast
  qed
qed

lemma regex_exec_Some_first:
  assumes "opn \<noteq> []" and "cls \<noteq> []" and "regex_exec (opn, cls) s = Some (d, post)"
  shows "\<exists>pre. s = pre @ opn @ d @ cls @ post \<and> \<not> sublist opn pre \<and> \<not> sublist cls d"
proof -
  from regex_exec_no_start_before [OF assms(3)] obtain pre where
    "s = pre @ opn @ d @ cls @ post" "no_start opn pre (opn @ d @ cls @ post)"
    "no_start cls d (cls @ post)" by blast
  with no_start_not_sublist [OF assms(1)] no_start_not_sublist [OF assms(2)]
  show ?thesis by blast
qed

section \<open>Well-formed payloads\<close>

text \<open>
  C1. A payload written after the grammar with \<open>N \<ge> 1\<close> blocks, each with a description
  element and at least one sub-problem element, succeeds: \<open>tasks_count\<close> is \<open>N\<close>, there are
  \<open>N\<close> entries, and the entries are, in the order of the blocks, the trimmed content of
  the first description of each block with the trimmed contents of its sub-problem
  elements, as many as the block has and in their order.
\<close>

theorem well_formed_payload_parsed:
  assumes "parameters ''new_tasks'' = Some (JString (render_payload (bs, tail)))"
    and "wf_payload (bs, tail)"
    and "bs \<noteq> []"
    and "list_all (\<lambda>(f, es, t). first_text Description es \<noteq> None \<and> texts_of SubProblem es \<noteq> []) bs"
  shows "\<exists>out. doWork now parameters = createSuccessResult out \<and>
           tasks_count out = length bs \<and>
           length (new_tasks out) = length bs \<and>
           map (\<lambda>e. (Some (description e), map sub_description (sub_problems e))) (new_tasks out)
             = map (\<lambda>(f, es, t). (map_option trim (first_text Description es),
                                     map trim (texts_of SubProblem es))) bs"
proof -
  define p where "p = render_payload (bs, tail)"
  have par: "parameters ''new_tasks'' = Some (JString p)"
    using assms(1) unfolding p_def .
  have tb: "task_blocks p = map (\<lambda>(f, b). block_content b) bs"
    unfolding p_def using assms(2) by (rule task_blocks_render)
  have wfb: "wf_block (snd (bs ! i))" if "i < length bs" for i
    using assms(2) that by (cases "bs ! i") (auto simp: list_all_length)
  have fields: "first_text Description (fst (snd (bs ! i))) \<noteq> None \<and>
      texts_of SubProblem (fst (snd (bs ! i))) \<noteq> []" if "i < length bs" for i
    using assms(4) that by (cases "bs ! i") (auto simp: list_all_length)
  have blk: "task_blocks p ! i = block_content (snd (bs ! i))" if "i < length bs" for i
    using that unfolding tb by (cases "bs ! i") simp
  have m: "regex_match descRegex (block_content (snd (bs ! i))) = first_text Description (fst (snd (bs ! i)))"
    and s: "sub_captures (block_content (snd (bs ! i))) = texts_of SubProblem (fst (snd (bs ! i)))"
    if "i < length bs" for i
  proof -
    obtain es t where b: "snd (bs ! i) = (es, t)" by (cases "snd (bs ! i)")
    with wfb [OF that] have w: "wf_block (es, t)" by simp
    from regex_match_block [OF w, of Description]
    show "regex_match descRegex (block_content (snd (bs ! i))) = first_text Description (fst (snd (bs ! i)))"
      unfolding b by simp
    from sub_captures_block [OF w]
    show "sub_captures (block_content (snd (bs ! i))) = texts_of SubProblem (fst (snd (bs ! i)))"
      unfolding b by simp
  qed
  have "block_ok b" if "b \<in> set (task_blocks p)" for b
  proof -
    from that tb obtain i where i: "i < length bs" and b: "b = block_content (snd (bs ! i))"
      by (auto simp: in_set_conv_nth split: prod.splits)
    from fields [OF i] m [OF i] s [OF i] show ?thesis
      by (simp add: b block_ok_def has_tag_iff_match sub_captures_Nil_match [symmetric])
  qed
  moreover from tb assms(3) have "task_blocks p \<noteq> []" by simp
  ultimately obtain out where out: "doWork now parameters = createSuccessResult out"
    using doWork_all_ok [of parameters p now] par by blast
  note suc = doWork_success [of parameters p now out, OF par out]
  from suc have bodies: "\<forall>j<length (new_tasks out). \<exists>c0 c1.
      task_body now (task_blocks p ! j) j c0 = Inr (new_tasks out ! j, c1)"
    by blast
  from suc have cnt: "tasks_count out = length bs" and len: "length (new_tasks out) = length bs"
    by (simp_all add: tb)
  have "map (\<lambda>e. (Some (description e), map sub_description (sub_problems e))) (new_tasks out)
     = map (\<lambda>(f, es, t). (map_option trim (first_text Description es),
                             map trim (texts_of SubProblem es))) bs"
  proof (rule nth_equalityI)
    show "length (map (\<lambda>e. (Some (description e), map sub_description (sub_problems e))) (new_tasks out))
      = length (map (\<lambda>(f, es, t). (map_option trim (first_text Description es),
                             map trim (texts_of SubProblem es))) bs)"
      using len by simp
  next
    fix i
    assume "i < length (map (\<lambda>e. (Some (description e), map sub_description (sub_problems e))) (new_tasks out))"
    with len have i: "i < length bs" "i < length (new_tasks out)" by simp_all
    from bodies i(2) obtain c0 c1 where
      "task_body now (task_blocks p ! i) i c0 = Inr (new_tasks out ! i, c1)" by blast
    from task_body_fields [OF this] blk [OF i(1)] m [OF i(1)] s [OF i(1)]
    have "Some (description (new_tasks out ! i)) = map_option trim (first_text Description (fst (snd (bs ! i))))"
      and "map sub_description (sub_problems (new_tasks out ! i)) = map trim (texts_of SubProblem (fst (snd (bs ! i))))"
      by (auto simp: mk_subs_description)
    with i show "map (\<lambda>e. (Some (description e), map sub_description (sub_problems e))) (new_tasks out) ! i
      = map (\<lambda>(f, es, t). (map_option trim (first_text Description es),
                             map trim (texts_of SubProblem es))) bs ! i"
      by (cases "bs ! i") (simp add: split_def)
  qed
  with out cnt len show ?thesis by blast
qed

theorem well_formed_payload_parsed_witness:
  "render_payload
     ([([], [([], Description, lit ''Write backstory''), ([], SubProblem, lit ''Draft childhood''),
             ([], SubProblem, lit ''Draft motivations'')], []),
       (lit '' '', [(lit '' '', SubProblem, lit '' s''), ([], Description, lit ''d < e '')], lit '' '')],
      lit ''.'')
     = lit ''<task><description>Write backstory</description><sub_problem>Draft childhood</sub_problem><sub_problem>Draft motivations</sub_problem></task> <task> <sub_problem> s</sub_problem><description>d < e </description> </task>.'' \<and>
   wf_payload
     ([([], [([], Description, lit ''Write backstory''), ([], SubProblem, lit ''Draft childhood''),
             ([], SubProblem, lit ''Draft motivations'')], []),
       (lit '' '', [(lit '' '', SubProblem, lit '' s''), ([], Description, lit ''d < e '')], lit '' '')],
      lit ''.'') \<and>
   (\<exists>out. doWork (fixed_clock 7) [''new_tasks'' \<mapsto> JString (lit ''<task><description>Write backstory</description><sub_problem>Draft childhood</sub_problem><sub_problem>Draft motivations</sub_problem></task> <task> <sub_problem> s</sub_problem><description>d < e </description> </task>.'')]
       = createSuccessResult out \<and>
     tasks_count out = 2 \<and>
     map (\<lambda>e. (Some (description e), map sub_description (sub_problems e))) (new_tasks out)
       = [(Some (lit ''Write backstory''), [lit ''Draft childhood'', lit ''Draft motivations'']),
          (Some (lit ''d < e''), [lit ''s''])])"
proof -
  let ?bs = "[([], [([], Description, lit ''Write backstory''), ([], SubProblem, lit ''Draft childhood''),
             ([], SubProblem, lit ''Draft motivations'')], []),
       (lit '' '', [(lit '' '', SubProblem, lit '' s''), ([], Description, lit ''d < e '')], lit '' '')]
    :: (jsstring \<times> block) list"
  let ?p = "lit ''<task><description>Write backstory</description><sub_problem>Draft childhood</sub_problem><sub_problem>Draft motivations</sub_problem></task> <task> <sub_problem> s</sub_problem><description>d < e </description> </task>.''"
  have r: "render_payload (?bs, lit ''.'') = ?p" by code_simp
  have w: "wf_payload (?bs, lit ''.'')" by code_simp
  have a: "[''new_tasks'' \<mapsto> JString ?p] ''new_tasks'' = Some (JString (render_payload (?bs, lit ''.'')))"
    by (simp only: r) simp
  have ne: "?bs \<noteq> []" by simp
  have h: "list_all (\<lambda>(f, es, t). first_text Description es \<noteq> None \<and> texts_of SubProblem es \<noteq> []) ?bs"
    by code_simp
  have v: "map (\<lambda>(f, es, t). (map_option trim (first_text Description es),
                                     map trim (texts_of SubProblem es))) ?bs
      = [(Some (lit ''Write backstory''), [lit ''Draft childhood'', lit ''Draft motivations'']),
          (Some (lit ''d < e''), [lit ''s''])]"
    by code_simp
  from well_formed_payload_parsed [of "[''new_tasks'' \<mapsto> JString ?p]" ?bs "lit ''.''" "fixed_clock 7",
      OF a w ne h]
  obtain out where o1: "doWork (fixed_clock 7) [''new_tasks'' \<mapsto> JString ?p] = createSuccessResult out"
    and o2: "tasks_count out = length ?bs"
    and o2': "length (new_tasks out) = length ?bs"
    and o3: "map (\<lambda>e. (Some (description e), map sub_description (sub_problems e))) (new_tasks out)
       = map (\<lambda>(f, es, t). (map_option trim (first_text Description es),
                                     map trim (texts_of SubProblem es))) ?bs"
    by (elim exE conjE)
  have c2: "tasks_count out = 2" unfolding o2 by simp
  note c3 = o3 [unfolded v]
  from o1 c2 c3
  have "doWork (fixed_clock 7) [''new_tasks'' \<mapsto> JString ?p] = createSuccessResult out \<and>
     tasks_count out = 2 \<and>
     map (\<lambda>e. (Some (description e), map sub_description (sub_problems e))) (new_tasks out)
       = [(Some (lit ''Write backstory''), [lit ''Draft childhood'', lit ''Draft motivations'']),
          (Some (lit ''d < e''), [lit ''s''])]"
    by (intro conjI)
  then have "\<exists>out. doWork (fixed_clock 7) [''new_tasks'' \<mapsto> JString ?p] = createSuccessResult out \<and>
     tasks_count out = 2 \<and>
     map (\<lambda>e. (Some (description e), map sub_description (sub_problems e))) (new_tasks out)
       = [(Some (lit ''Write backstory''), [lit ''Draft childhood'', lit ''Draft motivations'']),
          (Some (lit ''d < e''), [lit ''s''])]"
    by (rule exI [where x = out])
  with r w show ?thesis by (intro conjI)
qed

section \<open>The guard on the parameter\<close>

text \<open>
  C2, as the code has it. The guard \<open>!newTasksParam || typeof newTasksParam !== "string"\<close>
  rejects the empty string together with an absent and a non-string value, since the empty
  string is falsy: for each of them \<open>doWork\<close> fails with the parameter message, before any
  matching.
\<close>

theorem empty_payload_rejected_by_guard:
  "\<not> (\<exists>s. parameters ''new_tasks'' = Some (JString s) \<and> s \<noteq> []) \<Longrightarrow>
     doWork now parameters = createFailureResult msg_param"
  by (rule doWork_guard)

theorem empty_payload_rejected_by_guard_witness:
  "\<not> (\<exists>s. [''new_tasks'' \<mapsto> JString []] ''new_tasks'' = Some (JString s) \<and> s \<noteq> []) \<and>
   doWork (fixed_clock 0) [''new_tasks'' \<mapsto> JString []] = createFailureResult msg_param"
  using empty_payload_rejected_by_guard [of "[''new_tasks'' \<mapsto> JString []]" "fixed_clock 0"]
  by simp

text \<open>
  C2 as stated fails: for the empty string the message is not the one about missing task
  elements.
\<close>

theorem empty_payload_not_no_tasks_message:
  "doWork (fixed_clock 0) [''new_tasks'' \<mapsto> JString []]
     = createFailureResult (lit ''REFLECT tool requires '' @ [0x27] @ lit ''new_tasks'' @ [0x27]
         @ lit '' parameter as a string with XML format.'') \<and>
   doWork (fixed_clock 0) [''new_tasks'' \<mapsto> JString []] \<noteq> createFailureResult msg_no_tasks"
  by (simp add: doWork_def msg_param_def msg_no_tasks_def lit_def)

section \<open>Rejected payloads\<close>

text \<open>
  C3, as the code has it. When some block of the payload has no description tag, \<open>doWork\<close>
  fails as a whole: the result is a failure and carries no task entry. The loop returns at
  the first block that is not accepted, so the message names position \<open>n + 1\<close> as missing
  its description when every block before it has a description tag and a sub-problem tag.
\<close>

theorem missing_description_fails:
  assumes "parameters ''new_tasks'' = Some (JString payload)"
    and "n < length (task_blocks payload)"
    and "\<not> has_tag descRegex (task_blocks payload ! n)"
  shows "(\<exists>msg. doWork now parameters = createFailureResult msg) \<and>
         ((\<forall>j<n. block_ok (task_blocks payload ! j)) \<longrightarrow>
            doWork now parameters = createFailureResult (msg_no_description n))"
proof -
  from assms(3) have bad: "\<not> block_ok (task_blocks payload ! n)"
    by (simp add: block_ok_def)
  from doWork_bad_block [of parameters payload n now] assms(1,2) bad
  have "\<exists>msg. doWork now parameters = createFailureResult msg" by simp
  moreover have "doWork now parameters = createFailureResult (msg_no_description n)"
    if "\<forall>j<n. block_ok (task_blocks payload ! j)"
    using doWork_first_bad_block [of parameters payload n now] assms that bad by simp
  ultimately show ?thesis by blast
qed

theorem missing_description_fails_witness:
  "[''new_tasks'' \<mapsto> JString (lit ''<task><description>a</description><sub_problem>x</sub_problem></task><task><sub_problem>y</sub_problem></task>'')] ''new_tasks''
     = Some (JString (lit ''<task><description>a</description><sub_problem>x</sub_problem></task><task><sub_problem>y</sub_problem></task>'')) \<and>
   task_blocks (lit ''<task><description>a</description><sub_problem>x</sub_problem></task><task><sub_problem>y</sub_problem></task>'')
     = [lit ''<description>a</description><sub_problem>x</sub_problem>'', lit ''<sub_problem>y</sub_problem>''] \<and>
   \<not> has_tag descRegex (lit ''<sub_problem>y</sub_problem>'') \<and>
   block_ok (lit ''<description>a</description><sub_problem>x</sub_problem>'') \<and>
   doWork (fixed_clock 0) [''new_tasks'' \<mapsto> JString (lit ''<task><description>a</description><sub_problem>x</sub_problem></task><task><sub_problem>y</sub_problem></task>'')]
     = createFailureResult (lit ''REFLECT tool: Task 2 must have a <description> element.'')"
proof -
  let ?p = "lit ''<task><description>a</description><sub_problem>x</sub_problem></task><task><sub_problem>y</sub_problem></task>''"
  have tb: "task_blocks ?p
     = [lit ''<description>a</description><sub_problem>x</sub_problem>'', lit ''<sub_problem>y</sub_problem>'']"
    by code_simp
  have "regex_match descRegex (lit ''<sub_problem>y</sub_problem>'') = None" by code_simp
  then have nd: "\<not> has_tag descRegex (lit ''<sub_problem>y</sub_problem>'')"
    by (simp add: has_tag_iff_match)
  have "regex_match descRegex (lit ''<description>a</description><sub_problem>x</sub_problem>'') \<noteq> None"
    "regex_match subProblemRegex (lit ''<description>a</description><sub_problem>x</sub_problem>'') \<noteq> None"
    by code_simp+
  then have ok: "block_ok (lit ''<description>a</description><sub_problem>x</sub_problem>'')"
    by (simp add: block_ok_def has_tag_iff_match)
  have m: "msg_no_description 1 = lit ''REFLECT tool: Task 2 must have a <description> element.''"
    by code_simp
  from missing_description_fails [of "[''new_tasks'' \<mapsto> JString ?p]" ?p 1 "fixed_clock 0"] tb nd ok
  have "doWork (fixed_clock 0) [''new_tasks'' \<mapsto> JString ?p] = createFailureResult (msg_no_description 1)"
    by simp
  with tb nd ok m show ?thesis by simp
qed

text \<open>
  C3 as stated fails when an earlier block is rejected first: here the second block has
  no description tag, and the message is about the sub-problems of the first block.
\<close>

theorem missing_description_counterexample:
  "1 < length (task_blocks (lit ''<task><description>a</description></task><task><sub_problem>x</sub_problem></task>'')) \<and>
   \<not> has_tag descRegex (task_blocks (lit ''<task><description>a</description></task><task><sub_problem>x</sub_problem></task>'') ! 1) \<and>
   has_tag descRegex (task_blocks (lit ''<task><description>a</description></task><task><sub_problem>x</sub_problem></task>'') ! 0) \<and>
   doWork (fixed_clock 0) [''new_tasks'' \<mapsto> JString (lit ''<task><description>a</description></task><task><sub_problem>x</sub_problem></task>'')]
     = createFailureResult (lit ''REFLECT tool: Task 1 must have at least one <sub_problem> element.'') \<and>
   doWork (fixed_clock 0) [''new_tasks'' \<mapsto> JString (lit ''<task><description>a</description></task><task><sub_problem>x</sub_problem></task>'')]
     \<noteq> createFailureResult (msg_no_description 1)"
proof -
  let ?p = "lit ''<task><description>a</description></task><task><sub_problem>x</sub_problem></task>''"
  have tb: "task_blocks ?p = [lit ''<description>a</description>'', lit ''<sub_problem>x</sub_problem>'']"
    by code_simp
  have "regex_match descRegex (lit ''<sub_problem>x</sub_problem>'') = None"
    "regex_match descRegex (lit ''<description>a</description>'') \<noteq> None"
    by code_simp+
  then have nd: "\<not> has_tag descRegex (lit ''<sub_problem>x</sub_problem>'')"
    and hd: "has_tag descRegex (lit ''<description>a</description>'')"
    by (simp_all add: has_tag_iff_match)
  have d: "doWork (fixed_clock 0) [''new_tasks'' \<mapsto> JString ?p]
     = createFailureResult (lit ''REFLECT tool: Task 1 must have at least one <sub_problem> element.'')"
    by code_simp
  have ne: "lit ''REFLECT tool: Task 1 must have at least one <sub_problem> element.'' \<noteq> msg_no_description 1"
    by code_simp
  from tb nd hd d ne show ?thesis by simp
qed

text \<open>
  C4, as the code has it. When some block of the payload has a description tag and no
  sub-problem tag, \<open>doWork\<close> fails as a whole, and the message names position \<open>n + 1\<close> as
  needing a sub-problem when every block before it is accepted.
\<close>

theorem missing_sub_problem_fails:
  assumes "parameters ''new_tasks'' = Some (JString payload)"
    and "n < length (task_blocks payload)"
    and "has_tag descRegex (task_blocks payload ! n)"
    and "\<not> has_tag subProblemRegex (task_blocks payload ! n)"
  shows "(\<exists>msg. doWork now parameters = createFailureResult msg) \<and>
         ((\<forall>j<n. block_ok (task_blocks payload ! j)) \<longrightarrow>
            doWork now parameters = createFailureResult (msg_no_sub_problem n))"
proof -
  from assms(4) have bad: "\<not> block_ok (task_blocks payload ! n)"
    by (simp add: block_ok_def)
  from doWork_bad_block [of parameters payload n now] assms(1,2) bad
  have "\<exists>msg. doWork now parameters = createFailureResult msg" by simp
  moreover have "doWork now parameters = createFailureResult (msg_no_sub_problem n)"
    if "\<forall>j<n. block_ok (task_blocks payload ! j)"
    using doWork_first_bad_block [of parameters payload n now] assms that bad by simp
  ultimately show ?thesis by blast
qed

theorem missing_sub_problem_fails_witness:
  "[''new_tasks'' \<mapsto> JString (lit ''<task><description>a</description><sub_problem>x</sub_problem></task><task><description>b</description></task>'')] ''new_tasks''
     = Some (JString (lit ''<task><description>a</description><sub_problem>x</sub_problem></task><task><description>b</description></task>'')) \<and>
   task_blocks (lit ''<task><description>a</description><sub_problem>x</sub_problem></task><task><description>b</description></task>'')
     = [lit ''<description>a</description><sub_problem>x</sub_problem>'', lit ''<description>b</description>''] \<and>
   has_tag descRegex (lit ''<description>b</description>'') \<and>
   \<not> has_tag subProblemRegex (lit ''<description>b</description>'') \<and>
   block_ok (lit ''<description>a</description><sub_problem>x</sub_problem>'') \<and>
   doWork (fixed_clock 0) [''new_tasks'' \<mapsto> JString (lit ''<task><description>a</description><sub_problem>x</sub_problem></task><task><description>b</description></task>'')]
     = createFailureResult (lit ''REFLECT tool: Task 2 must have at least one <sub_problem> element.'')"
proof -
  let ?p = "lit ''<task><description>a</description><sub_problem>x</sub_problem></task><task><description>b</description></task>''"
  have tb: "task_blocks ?p
     = [lit ''<description>a</description><sub_problem>x</sub_problem>'', lit ''<description>b</description>'']"
    by code_simp
  have "regex_match descRegex (lit ''<description>b</description>'') \<noteq> None"
    "regex_match subProblemRegex (lit ''<description>b</description>'') = None"
    by code_simp+
  then have hd: "has_tag descRegex (lit ''<description>b</description>'')"
    and ns: "\<not> has_tag subProblemRegex (lit ''<description>b</description>'')"
    by (simp_all add: has_tag_iff_match)
  have "regex_match descRegex (lit ''<description>a</description><sub_problem>x</sub_problem>'') \<noteq> None"
    "regex_match subProblemRegex (lit ''<description>a</description><sub_problem>x</sub_problem>'') \<noteq> None"
    by code_simp+
  then have ok: "block_ok (lit ''<description>a</description><sub_problem>x</sub_problem>'')"
    by (simp add: block_ok_def has_tag_iff_match)
  have m: "msg_no_sub_problem 1 = lit ''REFLECT tool: Task 2 must have at least one <sub_problem> element.''"
    by code_simp
  from missing_sub_problem_fails [of "[''new_tasks'' \<mapsto> JString ?p]" ?p 1 "fixed_clock 0"] tb hd ns ok
  have "doWork (fixed_clock 0) [''new_tasks'' \<mapsto> JString ?p] = createFailureResult (msg_no_sub_problem 1)"
    by simp
  with tb hd ns ok m show ?thesis by simp
qed

text \<open>
  C4 as stated fails when an earlier block is rejected first: here the second block has a
  description tag and no sub-problem tag, and the message is about the description of the
  first block.
\<close>

theorem missing_sub_problem_counterexample:
  "1 < length (task_blocks (lit ''<task><sub_problem>x</sub_problem></task><task><description>a</description></task>'')) \<and>
   has_tag descRegex (task_blocks (lit ''<task><sub_problem>x</sub_problem></task><task><description>a</description></task>'') ! 1) \<and>
   \<not> has_tag subProblemRegex (task_blocks (lit ''<task><sub_problem>x</sub_problem></task><task><description>a</description></task>'') ! 1) \<and>
   has_tag subProblemRegex (task_blocks (lit ''<task><sub_problem>x</sub_problem></task><task><description>a</description></task>'') ! 0) \<and>
   doWork (fixed_clock 0) [''new_tasks'' \<mapsto> JString (lit ''<task><sub_problem>x</sub_problem></task><task><description>a</description></task>'')]
     = createFailureResult (lit ''REFLECT tool: Task 1 must have a <description> element.'') \<and>
   doWork (fixed_clock 0) [''new_tasks'' \<mapsto> JString (lit ''<task><sub_problem>x</sub_problem></task><task><description>a</description></task>'')]
     \<noteq> createFailureResult (msg_no_sub_problem 1)"
proof -
  let ?p = "lit ''<task><sub_problem>x</sub_problem></task><task><description>a</description></task>''"
  have tb: "task_blocks ?p = [lit ''<sub_problem>x</sub_problem>'', lit ''<description>a</description>'']"
    by code_simp
  have "regex_match descRegex (lit ''<description>a</description>'') \<noteq> None"
    "regex_match subProblemRegex (lit ''<description>a</description>'') = None"
    "regex_match subProblemRegex (lit ''<sub_problem>x</sub_problem>'') \<noteq> None"
    by code_simp+
  then have hd: "has_tag descRegex (lit ''<description>a</description>'')"
    and ns: "\<not> has_tag subProblemRegex (lit ''<description>a</description>'')"
    and hs: "has_tag subProblemRegex (lit ''<sub_problem>x</sub_problem>'')"
    by (simp_all add: has_tag_iff_match)
  have d: "doWork (fixed_clock 0) [''new_tasks'' \<mapsto> JString ?p]
     = createFailureResult (lit ''REFLECT tool: Task 1 must have a <description> element.'')"
    by code_simp
  have ne: "lit ''REFLECT tool: Task 1 must have a <description> element.'' \<noteq> msg_no_sub_problem 1"
    by code_simp
  from tb hd ns hs d ne show ?thesis by simp
qed

text \<open>
  C5. A non-empty payload in which the task expression matches nowhere makes \<open>doWork\<close>
  fail with the message that no valid task elements were found.
\<close>

theorem no_task_block_fails:
  assumes "parameters ''new_tasks'' = Some (JString payload)"
    and "payload \<noteq> []"
    and "\<not> has_tag taskRegex payload"
  shows "doWork now parameters = createFailureResult msg_no_tasks"
proof -
  from assms(3) have "regex_exec taskRegex payload = None"
    by (simp add: regex_exec_None_iff)
  then have "task_loop now payload 0 [] 0 = Inr []"
    by (rule task_loop_None)
  with doWork_string [of parameters payload now] assms(1,2) show ?thesis by simp
qed

theorem no_task_block_fails_witness:
  "[''new_tasks'' \<mapsto> JString (lit ''<description>x</description>'')] ''new_tasks''
     = Some (JString (lit ''<description>x</description>'')) \<and>
   lit ''<description>x</description>'' \<noteq> [] \<and>
   \<not> has_tag taskRegex (lit ''<description>x</description>'') \<and>
   doWork (fixed_clock 0) [''new_tasks'' \<mapsto> JString (lit ''<description>x</description>'')]
     = createFailureResult msg_no_tasks"
proof -
  have a: "[''new_tasks'' \<mapsto> JString (lit ''<description>x</description>'')] ''new_tasks''
     = Some (JString (lit ''<description>x</description>''))" by simp
  have b: "lit ''<description>x</description>'' \<noteq> []" by (simp add: lit_def)
  have "regex_exec taskRegex (lit ''<description>x</description>'') = None"
    by (simp add: taskRegex_def lit_def)
  then have c: "\<not> has_tag taskRegex (lit ''<description>x</description>'')"
    by (simp add: regex_exec_None_iff)
  from no_task_block_fails
    [of "[''new_tasks'' \<mapsto> JString (lit ''<description>x</description>'')]"
      "lit ''<description>x</description>''" "fixed_clock 0"] a b c
  show ?thesis by blast
qed

section \<open>The fields of the entries\<close>

text \<open>
  C6. In a successful result the entries stand for the blocks of the payload, one for one.
  An entry whose block has no reasoning tag has the reasoning \<open>Generated by reflection\<close>,
  and every sub-problem of every entry has that reasoning, whatever the payload says.
\<close>

theorem placeholder_reasoning:
  assumes "parameters ''new_tasks'' = Some (JString payload)"
    and "doWork now parameters = createSuccessResult out"
    and "i < length (new_tasks out)"
  shows "length (new_tasks out) = length (task_blocks payload) \<and>
         (\<not> has_tag reasoningRegex (task_blocks payload ! i) \<longrightarrow>
            reasoning (new_tasks out ! i) = lit ''Generated by reflection'') \<and>
         (\<forall>sp\<in>set (sub_problems (new_tasks out ! i)).
            sub_reasoning sp = lit ''Generated by reflection'')"
proof -
  from doWork_success [of parameters payload now out] assms
  obtain c0 c1 where len: "length (new_tasks out) = length (task_blocks payload)"
    and body: "task_body now (task_blocks payload ! i) i c0 = Inr (new_tasks out ! i, c1)"
    by blast
  note f = task_body_fields [OF body]
  from f have "reasoning (new_tasks out ! i) = placeholder"
    if "\<not> has_tag reasoningRegex (task_blocks payload ! i)"
    using that by (simp add: has_tag_iff_match)
  moreover from f have "sub_reasoning sp = placeholder"
    if "sp \<in> set (sub_problems (new_tasks out ! i))" for sp
    using that by (auto dest: mk_subs_reasoning)
  ultimately show ?thesis using len by (simp add: placeholder_def)
qed

theorem placeholder_reasoning_witness:
  "[''new_tasks'' \<mapsto> JString (lit ''<task><description>d</description><sub_problem>x</sub_problem></task>'')] ''new_tasks''
     = Some (JString (lit ''<task><description>d</description><sub_problem>x</sub_problem></task>'')) \<and>
   doWork (fixed_clock 7) [''new_tasks'' \<mapsto> JString (lit ''<task><description>d</description><sub_problem>x</sub_problem></task>'')]
     = createSuccessResult
         \<lparr>new_tasks =
            [\<lparr>task_id = lit ''reflect_task_7_0'', description = lit ''d'',
              reasoning = lit ''Generated by reflection'',
              sub_problems =
                [\<lparr>sub_id = lit ''reflect_sub_7_0_0'', sub_description = lit ''x'',
                  sub_reasoning = lit ''Generated by reflection''\<rparr>]\<rparr>],
          tasks_count = 1\<rparr> \<and>
   task_blocks (lit ''<task><description>d</description><sub_problem>x</sub_problem></task>'')
     = [lit ''<description>d</description><sub_problem>x</sub_problem>''] \<and>
   \<not> has_tag reasoningRegex (lit ''<description>d</description><sub_problem>x</sub_problem>'') \<and>
   reasoning \<lparr>task_id = lit ''reflect_task_7_0'', description = lit ''d'',
              reasoning = lit ''Generated by reflection'',
              sub_problems =
                [\<lparr>sub_id = lit ''reflect_sub_7_0_0'', sub_description = lit ''x'',
                  sub_reasoning = lit ''Generated by reflection''\<rparr>]\<rparr>
     = lit ''Generated by reflection'' \<and>
   map sub_reasoning [\<lparr>sub_id = lit ''reflect_sub_7_0_0'', sub_description = lit ''x'',
                 sub_reasoning = lit ''Generated by reflection''\<rparr>]
     = [lit ''Generated by reflection'']"
proof -
  let ?p = "lit ''<task><description>d</description><sub_problem>x</sub_problem></task>''"
  let ?out = "\<lparr>new_tasks =
            [\<lparr>task_id = lit ''reflect_task_7_0'', description = lit ''d'',
              reasoning = lit ''Generated by reflection'',
              sub_problems =
                [\<lparr>sub_id = lit ''reflect_sub_7_0_0'', sub_description = lit ''x'',
                  sub_reasoning = lit ''Generated by reflection''\<rparr>]\<rparr>],
          tasks_count = 1\<rparr>"
  have d: "doWork (fixed_clock 7) [''new_tasks'' \<mapsto> JString ?p] = createSuccessResult ?out"
    by code_simp
  have tb: "task_blocks ?p = [lit ''<description>d</description><sub_problem>x</sub_problem>'']"
    by code_simp
  have "regex_match reasoningRegex (lit ''<description>d</description><sub_problem>x</sub_problem>'') = None"
    by code_simp
  then have nr: "\<not> has_tag reasoningRegex (lit ''<description>d</description><sub_problem>x</sub_problem>'')"
    by (simp add: has_tag_iff_match)
  from placeholder_reasoning [of "[''new_tasks'' \<mapsto> JString ?p]" ?p "fixed_clock 7" ?out 0] d tb nr
  show ?thesis by simp
qed

text \<open>
  C7. In a successful result the description of an entry is the capture of the first
  description tag of its block with the leading and the trailing whitespace removed and
  the rest kept; so is its reasoning when the block has a reasoning tag, and so are the
  descriptions of its sub-problems, capture by capture. Whether a block is accepted
  depends on the presence of the tags alone: a payload whose blocks all have a description
  tag and a sub-problem tag succeeds, also when a description is empty once trimmed.
\<close>

theorem output_texts_trimmed:
  assumes "parameters ''new_tasks'' = Some (JString payload)"
  shows "(task_blocks payload \<noteq> [] \<and> (\<forall>b\<in>set (task_blocks payload). block_ok b) \<longrightarrow>
            (\<exists>out. doWork now parameters = createSuccessResult out)) \<and>
         (\<forall>out i. doWork now parameters = createSuccessResult out \<and> i < length (new_tasks out) \<longrightarrow>
            (\<exists>cap. regex_match descRegex (task_blocks payload ! i) = Some cap \<and>
               stripped cap (description (new_tasks out ! i))) \<and>
            (\<forall>cap. regex_match reasoningRegex (task_blocks payload ! i) = Some cap \<longrightarrow>
               stripped cap (reasoning (new_tasks out ! i))) \<and>
            list_all2 stripped (sub_captures (task_blocks payload ! i))
              (map sub_description (sub_problems (new_tasks out ! i))))"
proof -
  have "\<exists>out. doWork now parameters = createSuccessResult out"
    if "task_blocks payload \<noteq> []" "\<forall>b\<in>set (task_blocks payload). block_ok b"
    using doWork_all_ok [of parameters payload now] assms that by simp
  moreover have "(\<exists>cap. regex_match descRegex (task_blocks payload ! i) = Some cap \<and>
               stripped cap (description (new_tasks out ! i))) \<and>
            (\<forall>cap. regex_match reasoningRegex (task_blocks payload ! i) = Some cap \<longrightarrow>
               stripped cap (reasoning (new_tasks out ! i))) \<and>
            list_all2 stripped (sub_captures (task_blocks payload ! i))
              (map sub_description (sub_problems (new_tasks out ! i)))"
    if "doWork now parameters = createSuccessResult out" "i < length (new_tasks out)" for out i
  proof -
    from doWork_success [of parameters payload now out] assms that
    obtain c0 c1 where
      body: "task_body now (task_blocks payload ! i) i c0 = Inr (new_tasks out ! i, c1)"
      by blast
    note f = task_body_fields [OF body]
    have "list_all2 stripped caps (map trim caps)" for caps
      by (induction caps) (simp_all add: trim_stripped)
    with f show ?thesis by (auto simp: trim_stripped mk_subs_description)
  qed
  ultimately show ?thesis by blast
qed

theorem output_texts_trimmed_witness:
  "[''new_tasks'' \<mapsto> JString (lit ''<task><description>  </description><reasoning> why  not </reasoning><sub_problem>  a b </sub_problem></task>'')] ''new_tasks''
     = Some (JString (lit ''<task><description>  </description><reasoning> why  not </reasoning><sub_problem>  a b </sub_problem></task>'')) \<and>
   task_blocks (lit ''<task><description>  </description><reasoning> why  not </reasoning><sub_problem>  a b </sub_problem></task>'')
     = [lit ''<description>  </description><reasoning> why  not </reasoning><sub_problem>  a b </sub_problem>''] \<and>
   block_ok (lit ''<description>  </description><reasoning> why  not </reasoning><sub_problem>  a b </sub_problem>'') \<and>
   doWork (fixed_clock 7) [''new_tasks'' \<mapsto> JString (lit ''<task><description>  </description><reasoning> why  not </reasoning><sub_problem>  a b </sub_problem></task>'')]
     = createSuccessResult
         \<lparr>new_tasks =
            [\<lparr>task_id = lit ''reflect_task_7_0'', description = [], reasoning = lit ''why  not'',
              sub_problems =
                [\<lparr>sub_id = lit ''reflect_sub_7_0_0'', sub_description = lit ''a b'',
                  sub_reasoning = lit ''Generated by reflection''\<rparr>]\<rparr>],
          tasks_count = 1\<rparr> \<and>
   stripped (lit ''  '') [] \<and>
   stripped (lit '' why  not '') (lit ''why  not'') \<and>
   list_all2 stripped [lit ''  a b ''] [lit ''a b'']"
proof -
  let ?b = "lit ''<description>  </description><reasoning> why  not </reasoning><sub_problem>  a b </sub_problem>''"
  let ?p = "lit ''<task><description>  </description><reasoning> why  not </reasoning><sub_problem>  a b </sub_problem></task>''"
  let ?out = "\<lparr>new_tasks =
            [\<lparr>task_id = lit ''reflect_task_7_0'', description = [], reasoning = lit ''why  not'',
              sub_problems =
                [\<lparr>sub_id = lit ''reflect_sub_7_0_0'', sub_description = lit ''a b'',
                  sub_reasoning = lit ''Generated by reflection''\<rparr>]\<rparr>],
          tasks_count = 1\<rparr>"
  have a: "[''new_tasks'' \<mapsto> JString ?p] ''new_tasks'' = Some (JString ?p)" by simp
  have tb: "task_blocks ?p = [?b]" by code_simp
  have d: "doWork (fixed_clock 7) [''new_tasks'' \<mapsto> JString ?p] = createSuccessResult ?out"
    by code_simp
  have m: "regex_match descRegex ?b = Some (lit ''  '')"
    "regex_match reasoningRegex ?b = Some (lit '' why  not '')"
    "regex_match subProblemRegex ?b \<noteq> None"
    "sub_captures ?b = [lit ''  a b '']"
    by code_simp+
  then have ok: "block_ok ?b" by (simp add: block_ok_def has_tag_iff_match)
  have "doWork (fixed_clock 7) [''new_tasks'' \<mapsto> JString ?p] = createSuccessResult ?out \<and>
        0 < length (new_tasks ?out)"
    using d by simp
  from output_texts_trimmed [of "[''new_tasks'' \<mapsto> JString ?p]" ?p "fixed_clock 7", OF a,
      THEN conjunct2, rule_format, OF this]
  have "stripped (lit ''  '') [] \<and> stripped (lit '' why  not '') (lit ''why  not'') \<and>
        list_all2 stripped [lit ''  a b ''] [lit ''a b'']"
    by (simp add: tb m)
  with a tb ok d show ?thesis by simp
qed

section \<open>The identifiers of one call\<close>

text \<open>
  C8. In a successful result the identifiers of the entries and of all their sub-problems
  are pairwise distinct, whatever values the clock returns, also when it returns the same
  value at every read: the indices alone tell the identifiers apart.
\<close>

theorem generated_ids_distinct:
  assumes "parameters ''new_tasks'' = Some (JString payload)"
    and "doWork now parameters = createSuccessResult out"
  shows "distinct (all_ids (new_tasks out))"
proof -
  from doWork_success [of parameters payload now out] assms
  have "\<forall>j<length (new_tasks out). \<exists>c0 c1.
      task_body now (task_blocks payload ! j) j c0 = Inr (new_tasks out ! j, c1)"
    by blast
  then have "\<forall>j<length (new_tasks out). \<exists>b c0 c1.
      task_body now b (0 + j) c0 = Inr (new_tasks out ! j, c1)"
    unfolding add_0 by blast
  from all_ids_distinct [OF this] show ?thesis by blast
qed

theorem generated_ids_distinct_witness:
  "[''new_tasks'' \<mapsto> JString (lit ''<task><description>a</description><sub_problem>x</sub_problem><sub_problem>y</sub_problem></task><task><description>b</description><sub_problem>z</sub_problem></task>'')] ''new_tasks''
     = Some (JString (lit ''<task><description>a</description><sub_problem>x</sub_problem><sub_problem>y</sub_problem></task><task><description>b</description><sub_problem>z</sub_problem></task>'')) \<and>
   doWork (fixed_clock 7) [''new_tasks'' \<mapsto> JString (lit ''<task><description>a</description><sub_problem>x</sub_problem><sub_problem>y</sub_problem></task><task><description>b</description><sub_problem>z</sub_problem></task>'')]
     = createSuccessResult
         \<lparr>new_tasks =
            [\<lparr>task_id = lit ''reflect_task_7_0'', description = lit ''a'',
              reasoning = lit ''Generated by reflection'',
              sub_problems =
                [\<lparr>sub_id = lit ''reflect_sub_7_0_0'', sub_description = lit ''x'',
                  sub_reasoning = lit ''Generated by reflection''\<rparr>,
                 \<lparr>sub_id = lit ''reflect_sub_7_0_1'', sub_description = lit ''y'',
                  sub_reasoning = lit ''Generated by reflection''\<rparr>]\<rparr>,
             \<lparr>task_id = lit ''reflect_task_7_1'', description = lit ''b'',
              reasoning = lit ''Generated by reflection'',
              sub_problems =
                [\<lparr>sub_id = lit ''reflect_sub_7_1_0'', sub_description = lit ''z'',
                  sub_reasoning = lit ''Generated by reflection''\<rparr>]\<rparr>],
          tasks_count = 2\<rparr> \<and>
   distinct [lit ''reflect_task_7_0'', lit ''reflect_sub_7_0_0'', lit ''reflect_sub_7_0_1'',
             lit ''reflect_task_7_1'', lit ''reflect_sub_7_1_0'']"
proof -
  let ?p = "lit ''<task><description>a</description><sub_problem>x</sub_problem><sub_problem>y</sub_problem></task><task><description>b</description><sub_problem>z</sub_problem></task>''"
  let ?out = "\<lparr>new_tasks =
            [\<lparr>task_id = lit ''reflect_task_7_0'', description = lit ''a'',
              reasoning = lit ''Generated by reflection'',
              sub_problems =
                [\<lparr>sub_id = lit ''reflect_sub_7_0_0'', sub_description = lit ''x'',
                  sub_reasoning = lit ''Generated by reflection''\<rparr>,
                 \<lparr>sub_id = lit ''reflect_sub_7_0_1'', sub_description = lit ''y'',
                  sub_reasoning = lit ''Generated by reflection''\<rparr>]\<rparr>,
             \<lparr>task_id = lit ''reflect_task_7_1'', description = lit ''b'',
              reasoning = lit ''Generated by reflection'',
              sub_problems =
                [\<lparr>sub_id = lit ''reflect_sub_7_1_0'', sub_description = lit ''z'',
                  sub_reasoning = lit ''Generated by reflection''\<rparr>]\<rparr>],
          tasks_count = 2\<rparr>"
  have a: "[''new_tasks'' \<mapsto> JString ?p] ''new_tasks'' = Some (JString ?p)" by simp
  have d: "doWork (fixed_clock 7) [''new_tasks'' \<mapsto> JString ?p] = createSuccessResult ?out"
    by code_simp
  from generated_ids_distinct [of "[''new_tasks'' \<mapsto> JString ?p]" ?p "fixed_clock 7" ?out, OF a d]
  have "distinct [lit ''reflect_task_7_0'', lit ''reflect_sub_7_0_0'', lit ''reflect_sub_7_0_1'',
             lit ''reflect_task_7_1'', lit ''reflect_sub_7_1_0'']"
    by (simp add: all_ids_def ids_of_def)
  with a d show ?thesis by simp
qed

section \<open>Repeated and reordered elements\<close>

text \<open>
  C9. The block of every entry of a successful result holds a description tag whose
  opening literal is the first in the block and whose content runs to the first closing
  literal after it. The entry's description is the content of that tag, trimmed, whatever
  follows the tag, further description tags included. In the same way the reasoning is
  the trimmed content of the first reasoning tag, when there is one.
\<close>

theorem first_occurrence_used:
  assumes "parameters ''new_tasks'' = Some (JString payload)"
    and "doWork now parameters = createSuccessResult out"
    and "i < length (new_tasks out)"
  shows "(\<exists>pre d post.
            task_blocks payload ! i = pre @ lit ''<description>'' @ d @ lit ''</description>'' @ post \<and>
            \<not> sublist (lit ''<description>'') pre \<and> \<not> sublist (lit ''</description>'') d) \<and>
         (\<forall>pre d post.
            task_blocks payload ! i = pre @ lit ''<description>'' @ d @ lit ''</description>'' @ post \<and>
            \<not> sublist (lit ''<description>'') pre \<and> \<not> sublist (lit ''</description>'') d \<longrightarrow>
            description (new_tasks out ! i) = trim d) \<and>
         (\<forall>pre r post.
            task_blocks payload ! i = pre @ lit ''<reasoning>'' @ r @ lit ''</reasoning>'' @ post \<and>
            \<not> sublist (lit ''<reasoning>'') pre \<and> \<not> sublist (lit ''</reasoning>'') r \<longrightarrow>
            reasoning (new_tasks out ! i) = trim r)"
proof -
  from doWork_success [of parameters payload now out] assms
  obtain c0 c1 where
    body: "task_body now (task_blocks payload ! i) i c0 = Inr (new_tasks out ! i, c1)"
    by blast
  note f = task_body_fields [OF body]
  from f obtain cap post where "regex_exec descRegex (task_blocks payload ! i) = Some (cap, post)"
    by (auto simp: regex_match_def)
  then have "regex_exec (lit ''<description>'', lit ''</description>'') (task_blocks payload ! i)
      = Some (cap, post)"
    by (simp add: descRegex_def)
  from regex_exec_Some_first [OF _ _ this]
  have "\<exists>pre d post.
      task_blocks payload ! i = pre @ lit ''<description>'' @ d @ lit ''</description>'' @ post \<and>
      \<not> sublist (lit ''<description>'') pre \<and> \<not> sublist (lit ''</description>'') d"
    by (auto simp: lit_def)
  moreover have "description (new_tasks out ! i) = trim d"
    if "task_blocks payload ! i = pre @ lit ''<description>'' @ d @ lit ''</description>'' @ post"
      "\<not> sublist (lit ''<description>'') pre" "\<not> sublist (lit ''</description>'') d"
    for pre d post
  proof -
    from regex_exec_first [of "fst descRegex" "snd descRegex" pre d post] that(2,3) tag_like_regexes
    have "regex_exec descRegex (task_blocks payload ! i) = Some (d, post)"
      by (simp add: descRegex_def that(1))
    with f show ?thesis by (simp add: regex_match_def)
  qed
  moreover have "reasoning (new_tasks out ! i) = trim r"
    if "task_blocks payload ! i = pre @ lit ''<reasoning>'' @ r @ lit ''</reasoning>'' @ post"
      "\<not> sublist (lit ''<reasoning>'') pre" "\<not> sublist (lit ''</reasoning>'') r"
    for pre r post
  proof -
    from regex_exec_first [of "fst reasoningRegex" "snd reasoningRegex" pre r post] that(2,3)
      tag_like_regexes
    have "regex_exec reasoningRegex (task_blocks payload ! i) = Some (r, post)"
      by (simp add: reasoningRegex_def that(1))
    with f show ?thesis by (simp add: regex_match_def)
  qed
  ultimately show ?thesis by blast
qed

theorem first_occurrence_used_witness:
  "[''new_tasks'' \<mapsto> JString (lit ''<task><description>one</description><description>two</description><reasoning>r1</reasoning><reasoning>r2</reasoning><sub_problem>x</sub_problem></task>'')] ''new_tasks''
     = Some (JString (lit ''<task><description>one</description><description>two</description><reasoning>r1</reasoning><reasoning>r2</reasoning><sub_problem>x</sub_problem></task>'')) \<and>
   doWork (fixed_clock 7) [''new_tasks'' \<mapsto> JString (lit ''<task><description>one</description><description>two</description><reasoning>r1</reasoning><reasoning>r2</reasoning><sub_problem>x</sub_problem></task>'')]
     = createSuccessResult
         \<lparr>new_tasks =
            [\<lparr>task_id = lit ''reflect_task_7_0'', description = lit ''one'', reasoning = lit ''r1'',
              sub_problems =
                [\<lparr>sub_id = lit ''reflect_sub_7_0_0'', sub_description = lit ''x'',
                  sub_reasoning = lit ''Generated by reflection''\<rparr>]\<rparr>],
          tasks_count = 1\<rparr> \<and>
   task_blocks (lit ''<task><description>one</description><description>two</description><reasoning>r1</reasoning><reasoning>r2</reasoning><sub_problem>x</sub_problem></task>'') ! 0
     = [] @ lit ''<description>'' @ lit ''one'' @ lit ''</description>''
         @ lit ''<description>two</description><reasoning>r1</reasoning><reasoning>r2</reasoning><sub_problem>x</sub_problem>'' \<and>
   \<not> sublist (lit ''<description>'') [] \<and>
   \<not> sublist (lit ''</description>'') (lit ''one'') \<and>
   task_blocks (lit ''<task><description>one</description><description>two</description><reasoning>r1</reasoning><reasoning>r2</reasoning><sub_problem>x</sub_problem></task>'') ! 0
     = lit ''<description>one</description><description>two</description>'' @ lit ''<reasoning>'' @ lit ''r1''
         @ lit ''</reasoning>'' @ lit ''<reasoning>r2</reasoning><sub_problem>x</sub_problem>'' \<and>
   \<not> sublist (lit ''<reasoning>'') (lit ''<description>one</description><description>two</description>'') \<and>
   \<not> sublist (lit ''</reasoning>'') (lit ''r1'') \<and>
   lit ''one'' = trim (lit ''one'') \<and>
   lit ''r1'' = trim (lit ''r1'')"
proof -
  let ?p = "lit ''<task><description>one</description><description>two</description><reasoning>r1</reasoning><reasoning>r2</reasoning><sub_problem>x</sub_problem></task>''"
  let ?out = "\<lparr>new_tasks =
            [\<lparr>task_id = lit ''reflect_task_7_0'', description = lit ''one'', reasoning = lit ''r1'',
              sub_problems =
                [\<lparr>sub_id = lit ''reflect_sub_7_0_0'', sub_description = lit ''x'',
                  sub_reasoning = lit ''Generated by reflection''\<rparr>]\<rparr>],
          tasks_count = 1\<rparr>"
  have a: "[''new_tasks'' \<mapsto> JString ?p] ''new_tasks'' = Some (JString ?p)" by simp
  have d: "doWork (fixed_clock 7) [''new_tasks'' \<mapsto> JString ?p] = createSuccessResult ?out"
    by code_simp
  have b1: "task_blocks ?p ! 0
     = [] @ lit ''<description>'' @ lit ''one'' @ lit ''</description>''
         @ lit ''<description>two</description><reasoning>r1</reasoning><reasoning>r2</reasoning><sub_problem>x</sub_problem>''"
    by code_simp
  have b2: "task_blocks ?p ! 0
     = lit ''<description>one</description><description>two</description>'' @ lit ''<reasoning>'' @ lit ''r1''
         @ lit ''</reasoning>'' @ lit ''<reasoning>r2</reasoning><sub_problem>x</sub_problem>''"
    by code_simp
  have s: "\<not> sublist (lit ''<description>'') []"
    "\<not> sublist (lit ''</description>'') (lit ''one'')"
    "\<not> sublist (lit ''<reasoning>'') (lit ''<description>one</description><description>two</description>'')"
    "\<not> sublist (lit ''</reasoning>'') (lit ''r1'')"
    by code_simp+
  have i: "0 < length (new_tasks ?out)" by simp
  note th = first_occurrence_used [of "[''new_tasks'' \<mapsto> JString ?p]" ?p "fixed_clock 7" ?out 0,
      OF a d i]
  from th [THEN conjunct2, THEN conjunct1, rule_format, of "[]" "lit ''one''"] b1 s(1,2)
  have "description (new_tasks ?out ! 0) = trim (lit ''one'')" by blast
  moreover from th [THEN conjunct2, THEN conjunct2, rule_format,
      of "lit ''<description>one</description><description>two</description>''" "lit ''r1''"] b2 s(3,4)
  have "reasoning (new_tasks ?out ! 0) = trim (lit ''r1'')" by blast
  ultimately show ?thesis using a d b1 b2 s by simp
qed

text \<open>
  C10, as the code has it. For two blocks written after the grammar, the loop body gives
  the same result, entry and identifiers included, when the blocks agree in their first
  description, in their first reasoning and in the sequence of their sub-problems. So
  the elements may be rearranged freely as long as the sub-problem elements keep their
  relative order and the same description and the same reasoning element stay the first
  of their kind.
\<close>

theorem element_order_irrelevant:
  assumes "wf_block (es, tail)" and "wf_block (es', tail')"
    and "first_text Description es' = first_text Description es"
    and "first_text Reasoning es' = first_text Reasoning es"
    and "texts_of SubProblem es' = texts_of SubProblem es"
  shows "task_body now (block_content (es', tail')) taskIndex clk
       = task_body now (block_content (es, tail)) taskIndex clk"
proof -
  have d: "regex_match descRegex (block_content (es', tail'))
      = regex_match descRegex (block_content (es, tail))"
    using regex_match_block [OF assms(1), of Description]
      regex_match_block [OF assms(2), of Description] assms(3) by simp
  have r: "regex_match reasoningRegex (block_content (es', tail'))
      = regex_match reasoningRegex (block_content (es, tail))"
    using regex_match_block [OF assms(1), of Reasoning]
      regex_match_block [OF assms(2), of Reasoning] assms(4) by simp
  have s: "sub_captures (block_content (es', tail')) = sub_captures (block_content (es, tail))"
    using sub_captures_block [OF assms(1)] sub_captures_block [OF assms(2)] assms(5) by simp
  show ?thesis unfolding task_body_eq d r s ..
qed

theorem element_order_irrelevant_witness:
  "wf_block ([([], Description, lit ''d''), ([], Reasoning, lit ''r''),
              ([], SubProblem, lit ''x''), ([], SubProblem, lit ''y'')], []) \<and>
   wf_block ([([], SubProblem, lit ''x''), (lit '' '', SubProblem, lit ''y''),
              ([], Reasoning, lit ''r''), ([], Description, lit ''d'')], lit '' '') \<and>
   block_content ([([], Description, lit ''d''), ([], Reasoning, lit ''r''),
              ([], SubProblem, lit ''x''), ([], SubProblem, lit ''y'')], [])
     = lit ''<description>d</description><reasoning>r</reasoning><sub_problem>x</sub_problem><sub_problem>y</sub_problem>'' \<and>
   block_content ([([], SubProblem, lit ''x''), (lit '' '', SubProblem, lit ''y''),
              ([], Reasoning, lit ''r''), ([], Description, lit ''d'')], lit '' '')
     = lit ''<sub_problem>x</sub_problem> <sub_problem>y</sub_problem><reasoning>r</reasoning><description>d</description> '' \<and>
   task_body (fixed_clock 7) (lit ''<sub_problem>x</sub_problem> <sub_problem>y</sub_problem><reasoning>r</reasoning><description>d</description> '') 0 0
     = task_body (fixed_clock 7) (lit ''<description>d</description><reasoning>r</reasoning><sub_problem>x</sub_problem><sub_problem>y</sub_problem>'') 0 0"
proof -
  let ?es = "[([], Description, lit ''d''), ([], Reasoning, lit ''r''),
              ([], SubProblem, lit ''x''), ([], SubProblem, lit ''y'')] :: element list"
  let ?es' = "[([], SubProblem, lit ''x''), (lit '' '', SubProblem, lit ''y''),
              ([], Reasoning, lit ''r''), ([], Description, lit ''d'')] :: element list"
  have w: "wf_block (?es, [])" "wf_block (?es', lit '' '')" by code_simp+
  have c: "block_content (?es, [])
     = lit ''<description>d</description><reasoning>r</reasoning><sub_problem>x</sub_problem><sub_problem>y</sub_problem>''"
    "block_content (?es', lit '' '')
     = lit ''<sub_problem>x</sub_problem> <sub_problem>y</sub_problem><reasoning>r</reasoning><description>d</description> ''"
    by code_simp+
  have e: "first_text Description ?es' = first_text Description ?es"
    "first_text Reasoning ?es' = first_text Reasoning ?es"
    "texts_of SubProblem ?es' = texts_of SubProblem ?es"
    by (simp_all add: first_text_def texts_of_def)
  from element_order_irrelevant [OF w e, of "fixed_clock 7" 0 0]
  have "task_body (fixed_clock 7) (block_content (?es', lit '' '')) 0 0
     = task_body (fixed_clock 7) (block_content (?es, [])) 0 0" .
  then show ?thesis unfolding c using w c by simp
qed

text \<open>
  C10 as stated fails for a permutation that exchanges two sub-problem elements: the
  sub-problems of the entry come in the order of the block.
\<close>

theorem element_order_counterexample:
  "doWork (fixed_clock 7) [''new_tasks'' \<mapsto> JString (lit ''<task><description>d</description><sub_problem>x</sub_problem><sub_problem>y</sub_problem></task>'')]
     = createSuccessResult
         \<lparr>new_tasks =
            [\<lparr>task_id = lit ''reflect_task_7_0'', description = lit ''d'',
              reasoning = lit ''Generated by reflection'',
              sub_problems =
                [\<lparr>sub_id = lit ''reflect_sub_7_0_0'', sub_description = lit ''x'',
                  sub_reasoning = lit ''Generated by reflection''\<rparr>,
                 \<lparr>sub_id = lit ''reflect_sub_7_0_1'', sub_description = lit ''y'',
                  sub_reasoning = lit ''Generated by reflection''\<rparr>]\<rparr>],
          tasks_count = 1\<rparr> \<and>
   doWork (fixed_clock 7) [''new_tasks'' \<mapsto> JString (lit ''<task><description>d</description><sub_problem>y</sub_problem><sub_problem>x</sub_problem></task>'')]
     = createSuccessResult
         \<lparr>new_tasks =
            [\<lparr>task_id = lit ''reflect_task_7_0'', description = lit ''d'',
              reasoning = lit ''Generated by reflection'',
              sub_problems =
                [\<lparr>sub_id = lit ''reflect_sub_7_0_0'', sub_description = lit ''y'',
                  sub_reasoning = lit ''Generated by reflection''\<rparr>,
                 \<lparr>sub_id = lit ''reflect_sub_7_0_1'', sub_description = lit ''x'',
                  sub_reasoning = lit ''Generated by reflection''\<rparr>]\<rparr>],
          tasks_count = 1\<rparr> \<and>
   doWork (fixed_clock 7) [''new_tasks'' \<mapsto> JString (lit ''<task><description>d</description><sub_problem>x</sub_problem><sub_problem>y</sub_problem></task>'')]
     \<noteq> doWork (fixed_clock 7) [''new_tasks'' \<mapsto> JString (lit ''<task><description>d</description><sub_problem>y</sub_problem><sub_problem>x</sub_problem></task>'')]"
proof -
  let ?a = "lit ''<task><description>d</description><sub_problem>x</sub_problem><sub_problem>y</sub_problem></task>''"
  let ?b = "lit ''<task><description>d</description><sub_problem>y</sub_problem><sub_problem>x</sub_problem></task>''"
  have a: "doWork (fixed_clock 7) [''new_tasks'' \<mapsto> JString ?a]
     = createSuccessResult
         \<lparr>new_tasks =
            [\<lparr>task_id = lit ''reflect_task_7_0'', description = lit ''d'',
              reasoning = lit ''Generated by reflection'',
              sub_problems =
                [\<lparr>sub_id = lit ''reflect_sub_7_0_0'', sub_description = lit ''x'',
                  sub_reasoning = lit ''Generated by reflection''\<rparr>,
                 \<lparr>sub_id = lit ''reflect_sub_7_0_1'', sub_description = lit ''y'',
                  sub_reasoning = lit ''Generated by reflection''\<rparr>]\<rparr>],
          tasks_count = 1\<rparr>"
    by code_simp
  have b: "doWork (fixed_clock 7) [''new_tasks'' \<mapsto> JString ?b]
     = createSuccessResult
         \<lparr>new_tasks =
            [\<lparr>task_id = lit ''reflect_task_7_0'', description = lit ''d'',
              reasoning = lit ''Generated by reflection'',
              sub_problems =
                [\<lparr>sub_id = lit ''reflect_sub_7_0_0'', sub_description = lit ''y'',
                  sub_reasoning = lit ''Generated by reflection''\<rparr>,
                 \<lparr>sub_id = lit ''reflect_sub_7_0_1'', sub_description = lit ''x'',
                  sub_reasoning = lit ''Generated by reflection''\<rparr>]\<rparr>],
          tasks_count = 1\<rparr>"
    by code_simp
  have "lit ''x'' \<noteq> lit ''y''" by (simp add: lit_def)
  with a b show ?thesis by simp
qed

end
